theory Spec2Isabelle
  imports Main "HOL-Library.Word" "HOL-Library.Monad_Syntax" "HOL-Library.Multiset"
begin

unbundle bit_operations_syntax

section \<open>RadixHeap.h: the data model\<close>

text \<open>
  The priority type \<open>P\<close> of the template is an unsigned integer of some width: it is the
  type \<open>'p word\<close>, and the constant \<open>BITS = sizeof(P) * 8\<close> of the class is \<open>LENGTH('p)\<close>.
  Pointers to nodes and \<open>std::size_t\<close> have the width of the platform's address space: both
  are \<open>'s word\<close>, and \<open>nullptr\<close> is the word \<open>0\<close>. Indices into the bucket array are at most
  \<open>BITS + 1\<close> and are natural numbers.

  \<open>RadixHeapNode\<close> (lines 46-60). The fields \<open>value\<close> and \<open>next\<close> are called \<open>node_value\<close>
  and \<open>node_next\<close> here, since both words are reserved.
\<close>

record (overloaded) ('v, 'p, 's) RadixHeapNode =
  node_value :: 'v
  priority :: "'p word"
  prev :: "'s word"
  node_next :: "'s word"

text \<open>
  The nodes live on the free store: a partial map from addresses to node objects. An address
  outside its domain is unallocated (or deleted).
\<close>

type_synonym ('v, 'p, 's) node_store = "'s word \<Rightarrow> ('v, 'p, 's) RadixHeapNode option"

text \<open>
  \<open>RadixHeap\<close> (lines 112-120): the four members, and the store its nodes are allocated in.
  \<open>m_buckets\<close> is a \<open>std::array\<close> of \<open>BITS + 1\<close> head pointers.
\<close>

record (overloaded) ('v, 'p, 's) RadixHeap =
  m_size :: "'s word"
  m_minimum :: "'p word"
  m_bucketMask :: "'p word"
  m_buckets :: "'s word list"
  store :: "('v, 'p, 's) node_store"

text \<open>
  Reading or writing through a null or dangling pointer, and indexing the array out of
  bounds, are undefined behaviour in the source: here they are the result \<open>None\<close>.
\<close>

definition deref :: "('v, 'p, 's::len) node_store \<Rightarrow> 's word \<Rightarrow> ('v, 'p, 's) RadixHeapNode option" where
  "deref st a = (if a = 0 then None else st a)"

definition set_prev :: "('v, 'p, 's::len) node_store \<Rightarrow> 's word \<Rightarrow> 's word \<Rightarrow> ('v, 'p, 's) node_store option" where
  "set_prev st a v = do { n \<leftarrow> deref st a; Some (st(a \<mapsto> n\<lparr>prev := v\<rparr>)) }"

definition set_next :: "('v, 'p, 's::len) node_store \<Rightarrow> 's word \<Rightarrow> 's word \<Rightarrow> ('v, 'p, 's) node_store option" where
  "set_next st a v = do { n \<leftarrow> deref st a; Some (st(a \<mapsto> n\<lparr>node_next := v\<rparr>)) }"

definition bucket_at :: "('v, 'p, 's) RadixHeap \<Rightarrow> nat \<Rightarrow> 's word option" where
  "bucket_at h ind = (if ind < length (m_buckets h) then Some (m_buckets h ! ind) else None)"

section \<open>msbSet\<close>

text \<open>
  The portable template (lines 126-134): shift the mask right until it is zero, counting
  the shifts.
\<close>

function msbSet_loop :: "'a::len word \<Rightarrow> nat \<Rightarrow> nat" where
  "msbSet_loop msk i = (if msk \<noteq> 0 then msbSet_loop (drop_bit 1 msk) (Suc i) else i)"
  by pat_completeness auto
termination
proof (relation "measure (\<lambda>(msk, i). unat msk)")
  show "wf (measure (\<lambda>(msk :: 'a word, i :: nat). unat msk))" by simp
next
  fix msk :: "'a word" and i :: nat
  assume "msk \<noteq> 0"
  then have "0 < unat msk" by (simp add: unat_gt_0)
  then have "unat msk div 2 < unat msk" by simp
  then show "((drop_bit 1 msk, Suc i), msk, i) \<in> measure (\<lambda>(msk, i). unat msk)"
    by (simp add: unat_div drop_bit_eq_div)
qed

declare msbSet_loop.simps [simp del]

definition msbSet :: "'a::len word \<Rightarrow> nat" where
  "msbSet msk = msbSet_loop msk 0"





section \<open>The operations of the heap\<close>

text \<open>The constructor (lines 155-160), in a program whose node store is \<open>st\<close>.\<close>

definition RadixHeap_init :: "('v, 'p::len, 's::len) node_store \<Rightarrow> ('v, 'p, 's) RadixHeap" where
  "RadixHeap_init st =
     \<lparr>m_size = 0, m_minimum = 0, m_bucketMask = 0,
      m_buckets = replicate (LENGTH('p) + 1) 0, store = st\<rparr>"

text \<open>\<open>size()\<close> and \<open>empty()\<close> (lines 102-110).\<close>

definition size_heap :: "('v, 'p, 's) RadixHeap \<Rightarrow> 's word" where
  "size_heap h = m_size h"

definition empty :: "('v, 'p, 's::len) RadixHeap \<Rightarrow> bool" where
  "empty h \<longleftrightarrow> size_heap h = 0"

text \<open>
  \<open>insert\<close> (lines 243-257): link the node at the head of the bucket selected by the highest
  bit in which its priority differs from \<open>m_minimum\<close>, and set the bucket's bit in the mask.
  The operations are written with the template \<open>msbSet\<close>; where the compiler selects the
  overload of parameter type \<open>P\<close> instead, the result is the same
  (\<open>msbSet_builtin_is_msbSet\<close> below).
\<close>

definition insert_node :: "'s word \<Rightarrow> ('v, 'p::len, 's::len) RadixHeap \<Rightarrow> ('v, 'p, 's) RadixHeap option" where
  "insert_node node h = do {
     n \<leftarrow> deref (store h) node;
     let ind = msbSet (priority n XOR m_minimum h);
     head \<leftarrow> bucket_at h ind;
     st1 \<leftarrow> set_next (store h) node head;
     st2 \<leftarrow> (if head \<noteq> 0 then set_prev st1 head node else Some st1);
     Some (h\<lparr>m_buckets := (m_buckets h)[ind := node],
             m_bucketMask := (if ind \<noteq> 0 then m_bucketMask h OR push_bit (LENGTH('p) - ind) 1
                              else m_bucketMask h),
             store := st2\<rparr>)
   }"

text \<open>
  \<open>push\<close> (lines 177-185). The address \<open>a\<close> is the one the call of \<open>new\<close> returns: \<open>new\<close> never
  returns null or the address of an object that is still allocated, so such an \<open>a\<close> means that
  the allocation does not return.
\<close>

definition push :: "'s word \<Rightarrow> 'v \<Rightarrow> 'p word \<Rightarrow> ('v, 'p::len, 's::len) RadixHeap \<Rightarrow> ('s word \<times> ('v, 'p, 's) RadixHeap) option" where
  "push a v p h =
     (if a = 0 \<or> store h a \<noteq> None then None
      else do {
        let h1 = h\<lparr>m_size := m_size h + 1\<rparr>;
        let node = a;
        let h2 = h1\<lparr>store := (store h1)(node \<mapsto>
                   \<lparr>node_value = v, priority = p, prev = 0, node_next = 0\<rparr>)\<rparr>;
        h3 \<leftarrow> insert_node node h2;
        Some (node, h3)
      })"

text \<open>
  The scan of \<open>pop\<close> (lines 210-215): \<open>it\<close> walks the list, \<open>mn\<close> is the node of least priority
  seen so far. The walk follows \<open>next\<close> pointers and need not end on a cyclic list: the
  result \<open>None\<close> stands for that as well.
\<close>

partial_function (option) find_min :: "('v, 'p::len, 's::len) node_store \<Rightarrow> 's word \<Rightarrow> 's word \<Rightarrow> 's word option" where
  "find_min st it mn =
     (if it = 0 then Some mn
      else do {
        ni \<leftarrow> deref st it;
        nm \<leftarrow> deref st mn;
        find_min st (node_next ni) (if priority ni < priority nm then it else mn)
      })"

text \<open>The redistribution loop of \<open>pop\<close> (lines 231-237).\<close>

partial_function (option) redistribute :: "'s word \<Rightarrow> ('v, 'p::len, 's::len) RadixHeap \<Rightarrow> ('v, 'p, 's) RadixHeap option" where
  "redistribute bucket h =
     (if bucket = 0 then Some h
      else do {
        nb \<leftarrow> deref (store h) bucket;
        let nxt = node_next nb;
        st1 \<leftarrow> set_prev (store h) bucket 0;
        h1 \<leftarrow> insert_node bucket (h\<lparr>store := st1\<rparr>);
        redistribute nxt h1
      })"

declare find_min.simps [code]
declare redistribute.simps [code]

text \<open>
  The branch of \<open>pop\<close> for a non-empty bucket 0 (lines 193-200). The node is unlinked and
  not deleted. The result carries the priority of the unlinked node next to its value, so
  that the priority of a returned value can be spoken of; \<open>pop\<close> below drops it.
\<close>

definition pop_front :: "'s word \<Rightarrow> ('v, 'p::len, 's::len) RadixHeap \<Rightarrow> (('v \<times> 'p word) \<times> ('v, 'p, 's) RadixHeap) option" where
  "pop_front b0 h = do {
     n0 \<leftarrow> deref (store h) b0;
     let result = (node_value n0, priority n0);
     let h1 = h\<lparr>m_buckets := (m_buckets h)[0 := node_next n0]\<rparr>;
     st1 \<leftarrow> (if node_next n0 \<noteq> 0 then set_prev (store h1) (node_next n0) 0
              else Some (store h1));
     Some (result, h1\<lparr>store := st1\<rparr>)
   }"

text \<open>
  Lines 202-208: the index of the bucket to drain, from the highest set bit of the mask; the
  bucket is detached and its bit cleared.
\<close>

definition take_bucket :: "('v, 'p::len, 's::len) RadixHeap \<Rightarrow> (nat \<times> 's word \<times> ('v, 'p, 's) RadixHeap) option" where
  "take_bucket h = do {
     let ind = LENGTH('p) + 1 - msbSet (m_bucketMask h);
     bucket \<leftarrow> bucket_at h ind;
     let h1 = h\<lparr>m_buckets := (m_buckets h)[ind := 0]\<rparr>;
     let h2 = (if ind \<noteq> 0
               then h1\<lparr>m_bucketMask := m_bucketMask h1 XOR push_bit (LENGTH('p) - ind) 1\<rparr>
               else h1);
     Some (ind, bucket, h2)
   }"

text \<open>
  Lines 217-229: unlink the node \<open>mn\<close> from the detached list that starts at \<open>bucket\<close>, make
  its priority the new minimum and delete it. The fields of \<open>mn\<close> are read again after each
  write, as the source reads them through the pointer.
\<close>

definition unlink_min :: "'s word \<Rightarrow> 's word \<Rightarrow> ('v, 'p::len, 's::len) RadixHeap \<Rightarrow> (('v \<times> 'p word) \<times> 's word \<times> ('v, 'p, 's) RadixHeap) option" where
  "unlink_min mn bucket h = do {
     n1 \<leftarrow> deref (store h) mn;
     (st1, bucket1) \<leftarrow> (if prev n1 \<noteq> 0
                         then do { st \<leftarrow> set_next (store h) (prev n1) (node_next n1);
                                   Some (st, bucket) }
                         else Some (store h, node_next n1));
     n2 \<leftarrow> deref st1 mn;
     st2 \<leftarrow> (if node_next n2 \<noteq> 0 then set_prev st1 (node_next n2) (prev n2) else Some st1);
     n3 \<leftarrow> deref st2 mn;
     let result = (node_value n3, priority n3);
     Some (result, bucket1, h\<lparr>m_minimum := priority n3, store := st2(mn := None)\<rparr>)
   }"

text \<open>\<open>pop\<close> (lines 188-240), returning the value and the priority of the removed node.\<close>

definition pop_node :: "('v, 'p::len, 's::len) RadixHeap \<Rightarrow> (('v \<times> 'p word) \<times> ('v, 'p, 's) RadixHeap) option" where
  "pop_node h0 = do {
     let h = h0\<lparr>m_size := m_size h0 - 1\<rparr>;
     b0 \<leftarrow> bucket_at h 0;
     if b0 \<noteq> 0 then pop_front b0 h
     else do {
       (ind, bucket, h1) \<leftarrow> take_bucket h;
       mn \<leftarrow> find_min (store h1) bucket bucket;
       (result, bucket1, h2) \<leftarrow> unlink_min mn bucket h1;
       h3 \<leftarrow> redistribute bucket1 h2;
       Some (result, h3)
     }
   }"

text \<open>\<open>pop\<close> as the source declares it: the value alone.\<close>

definition pop :: "('v, 'p::len, 's::len) RadixHeap \<Rightarrow> ('v \<times> ('v, 'p, 's) RadixHeap) option" where
  "pop h = map_option (\<lambda>(e, h'). (fst e, h')) (pop_node h)"

section \<open>Sequences of operations\<close>

text \<open>
  A call of the public interface: \<open>Push a v p\<close> is \<open>push(v, p)\<close> in which \<open>new\<close> returns the
  address \<open>a\<close>; \<open>Pop\<close> is \<open>pop()\<close>.
\<close>

datatype ('a, 'v, 'k) operation = Push 'a 'v 'k | Pop

text \<open>
  One call, and a sequence of calls. The trace lists, for every \<open>pop()\<close> in order, the value
  it returned and the priority of the node the value came from.
\<close>

fun step :: "('s::len word, 'v, 'p::len word) operation \<Rightarrow> ('v, 'p, 's) RadixHeap \<Rightarrow> (('v \<times> 'p word) list \<times> ('v, 'p, 's) RadixHeap) option" where
  "step (Push a v p) h = map_option (\<lambda>(_, h'). ([], h')) (push a v p h)"
| "step Pop h = map_option (\<lambda>(e, h'). ([e], h')) (pop_node h)"

fun exec :: "('s::len word, 'v, 'p::len word) operation list \<Rightarrow> ('v, 'p, 's) RadixHeap \<Rightarrow> (('v \<times> 'p word) list \<times> ('v, 'p, 's) RadixHeap) option" where
  "exec [] h = Some ([], h)"
| "exec (opn # ops) h = do {
     (out1, h1) \<leftarrow> step opn h;
     (out2, h2) \<leftarrow> exec ops h1;
     Some (out1 @ out2, h2)
   }"

text \<open>
  The preconditions of the interface: a pushed priority is at least the current minimum,
  and \<open>pop()\<close> is not called on a heap for which \<open>empty()\<close> holds. For \<open>push\<close>, \<open>new\<close> returns
  a fresh address.
\<close>

fun precondition :: "('s::len word, 'v, 'p::len word) operation \<Rightarrow> ('v, 'p, 's) RadixHeap \<Rightarrow> bool" where
  "precondition (Push a v p) h \<longleftrightarrow> a \<noteq> 0 \<and> store h a = None \<and> m_minimum h \<le> p"
| "precondition Pop h \<longleftrightarrow> \<not> empty h"

text \<open>
  A sequence respects the preconditions when each call is made in a state that satisfies
  its precondition. Nothing is required after a call that does not return.
\<close>

fun respecting :: "('s::len word, 'v, 'p::len word) operation list \<Rightarrow> ('v, 'p, 's) RadixHeap \<Rightarrow> bool" where
  "respecting [] h = True"
| "respecting (opn # ops) h \<longleftrightarrow>
     precondition opn h \<and> (case step opn h of None \<Rightarrow> True | Some (_, h1) \<Rightarrow> respecting ops h1)"

text \<open>Draining: \<open>pop()\<close> until \<open>empty()\<close>.\<close>

partial_function (option) drain :: "('v, 'p::len, 's::len) RadixHeap \<Rightarrow> ('v \<times> 'p word) list option" where
  "drain h =
     (if empty h then Some []
      else do {
        (e, h1) \<leftarrow> pop_node h;
        es \<leftarrow> drain h1;
        Some (e # es)
      })"

declare drain.simps [code]

section \<open>The lists behind the pointers\<close>

text \<open>
  \<open>lseg st a as b\<close>: following \<open>next\<close> pointers from \<open>a\<close> visits exactly the allocated nodes
  \<open>as\<close>, in this order, and arrives at \<open>b\<close>. \<open>dll st p a as\<close>: the list that starts at \<open>a\<close> is
  null-terminated, consists of the nodes \<open>as\<close>, and every node's \<open>prev\<close> points to its
  predecessor, the first one's to \<open>p\<close>.
\<close>

primrec lseg :: "('v, 'p, 's::len) node_store \<Rightarrow> 's word \<Rightarrow> 's word list \<Rightarrow> 's word \<Rightarrow> bool" where
  "lseg st a [] b \<longleftrightarrow> a = b"
| "lseg st a (x # xs) b \<longleftrightarrow>
     a = x \<and> (case deref st x of None \<Rightarrow> False | Some n \<Rightarrow> lseg st (node_next n) xs b)"

primrec dll :: "('v, 'p, 's::len) node_store \<Rightarrow> 's word \<Rightarrow> 's word \<Rightarrow> 's word list \<Rightarrow> bool" where
  "dll st p a [] \<longleftrightarrow> a = 0"
| "dll st p a (x # xs) \<longleftrightarrow>
     a = x \<and> (case deref st x of None \<Rightarrow> False
              | Some n \<Rightarrow> prev n = p \<and> dll st x (node_next n) xs)"

text \<open>The payload of the node at an address: its value and its priority.\<close>

definition node_data :: "('v, 'p, 's::len) node_store \<Rightarrow> 's word \<Rightarrow> ('v \<times> 'p word) option" where
  "node_data st a = map_option (\<lambda>n. (node_value n, priority n)) (deref st a)"

text \<open>
  The representation invariant, for the lists \<open>bs\<close> of node addresses held by the buckets:
  bucket \<open>i\<close> is a well-formed doubly linked list of the nodes \<open>bs ! i\<close>; no node occurs twice;
  a node of bucket \<open>i\<close> has a priority that is at least the minimum and differs from it
  in bit \<open>i - 1\<close> at the highest; and the mask records which buckets above 0 are non-empty.
\<close>

definition heap_inv :: "('v, 'p::len, 's::len) RadixHeap \<Rightarrow> 's word list list \<Rightarrow> bool" where
  "heap_inv h bs \<longleftrightarrow>
     length (m_buckets h) = LENGTH('p) + 1 \<and> length bs = LENGTH('p) + 1 \<and>
     (\<forall>i \<le> LENGTH('p). dll (store h) 0 (m_buckets h ! i) (bs ! i)) \<and>
     distinct (concat bs) \<and>
     (\<forall>i \<le> LENGTH('p). \<forall>a \<in> set (bs ! i). \<exists>n. deref (store h) a = Some n \<and>
         msbSet (priority n XOR m_minimum h) = i \<and> m_minimum h \<le> priority n) \<and>
     (\<forall>i. 1 \<le> i \<and> i \<le> LENGTH('p) \<longrightarrow>
         (bit (m_bucketMask h) (LENGTH('p) - i) \<longleftrightarrow> bs ! i \<noteq> []))"

definition size_ok :: "('v, 'p::len, 's::len) RadixHeap \<Rightarrow> 's word list list \<Rightarrow> bool" where
  "size_ok h bs \<longleftrightarrow> m_size h = of_nat (length (concat bs))"

text \<open>
  The multiset of the payloads of the nodes in the buckets; and a heap that satisfies the
  invariant for some lists, counts their elements in \<open>m_size\<close>, and holds the payloads \<open>C\<close>.
\<close>

definition contents :: "('v, 'p::len, 's::len) RadixHeap \<Rightarrow> 's word list list \<Rightarrow> ('v \<times> 'p word) multiset" where
  "contents h bs = image_mset (\<lambda>a. the (node_data (store h) a)) (mset (concat bs))"

definition heap_ok :: "('v, 'p::len, 's::len) RadixHeap \<Rightarrow> ('v \<times> 'p word) multiset \<Rightarrow> bool" where
  "heap_ok h C \<longleftrightarrow> (\<exists>bs. heap_inv h bs \<and> size_ok h bs \<and> contents h bs = C)"

text \<open>
  The same lists, computed: the addresses reached from a head pointer, and the lists of
  all buckets. The walk does not end on a cyclic list.
\<close>

partial_function (option) nodes_from :: "('v, 'p, 's::len) node_store \<Rightarrow> 's word \<Rightarrow> 's word list option" where
  "nodes_from st a =
     (if a = 0 then Some []
      else do {
        n \<leftarrow> deref st a;
        as \<leftarrow> nodes_from st (node_next n);
        Some (a # as)
      })"

declare nodes_from.simps [code]

definition bucket_nodes :: "('v, 'p, 's::len) RadixHeap \<Rightarrow> nat \<Rightarrow> 's word list option" where
  "bucket_nodes h i = do { b \<leftarrow> bucket_at h i; nodes_from (store h) b }"

definition live_buckets :: "('v, 'p, 's::len) RadixHeap \<Rightarrow> 's word list list option" where
  "live_buckets h =
     (if list_all (\<lambda>b. nodes_from (store h) b \<noteq> None) (m_buckets h)
      then Some (map (\<lambda>b. the (nodes_from (store h) b)) (m_buckets h))
      else None)"

section \<open>Notions used by the claims\<close>

text \<open>The payloads pushed by a sequence of calls, and the numbers of its pushes and pops.\<close>

fun pushed :: "('a, 'v, 'k) operation list \<Rightarrow> ('v \<times> 'k) list" where
  "pushed [] = []"
| "pushed (Push a v p # ops) = (v, p) # pushed ops"
| "pushed (Pop # ops) = pushed ops"

fun n_push :: "('a, 'v, 'k) operation list \<Rightarrow> nat" where
  "n_push [] = 0"
| "n_push (Push a v p # ops) = Suc (n_push ops)"
| "n_push (Pop # ops) = n_push ops"

fun n_pop :: "('a, 'v, 'k) operation list \<Rightarrow> nat" where
  "n_pop [] = 0"
| "n_pop (Push a v p # ops) = n_pop ops"
| "n_pop (Pop # ops) = Suc (n_pop ops)"

fun only_pushes :: "('a, 'v, 'k) operation list \<Rightarrow> bool" where
  "only_pushes [] = True"
| "only_pushes (Push a v p # ops) = only_pushes ops"
| "only_pushes (Pop # ops) = False"

text \<open>Pushes of the values \<open>avs\<close> (with the addresses \<open>new\<close> returns), all with the priority \<open>p\<close>.\<close>

definition pushes_at :: "'k \<Rightarrow> ('a \<times> 'v) list \<Rightarrow> ('a, 'v, 'k) operation list" where
  "pushes_at p avs = map (\<lambda>(a, v). Push a v p) avs"

text \<open>
  Every node of the buckets lies in exactly one bucket, and the index of its bucket is the
  position of the highest bit in which its priority differs from the minimum: 0 exactly
  when the priority is the minimum.
\<close>

definition node_index_ok :: "('v, 'p::len, 's::len) RadixHeap \<Rightarrow> nat \<Rightarrow> 's word \<Rightarrow> bool" where
  "node_index_ok h i a =
     (case deref (store h) a of None \<Rightarrow> False
      | Some n \<Rightarrow> msbSet (priority n XOR m_minimum h) = i
                 \<and> ((priority n = m_minimum h) = (i = 0)))"

definition bucket_invariant :: "('v, 'p::len, 's::len) RadixHeap \<Rightarrow> bool" where
  "bucket_invariant h =
     (case live_buckets h of None \<Rightarrow> False
      | Some bs \<Rightarrow> length bs = LENGTH('p) + 1 \<and> distinct (concat bs)
          \<and> list_all (\<lambda>i. list_all (node_index_ok h i) (bs ! i)) [0..<length bs])"

text \<open>Bit \<open>BITS - i\<close> of the mask is set exactly when bucket \<open>i\<close> is non-empty, for \<open>i\<close> in \<open>1..BITS\<close>.\<close>

definition mask_invariant :: "('v, 'p::len, 's::len) RadixHeap \<Rightarrow> bool" where
  "mask_invariant h =
     list_all (\<lambda>i. bit (m_bucketMask h) (LENGTH('p) - i) = (m_buckets h ! i \<noteq> 0))
       [1..<LENGTH('p) + 1]"

section \<open>The scenario of the specification\<close>

text \<open>
  The calls of the concrete scenario; \<open>new\<close> returns the addresses \<open>a\<close>, \<open>b\<close>, \<open>c\<close> and \<open>d\<close>.
\<close>

definition scenario :: "'a \<Rightarrow> 'a \<Rightarrow> 'a \<Rightarrow> 'a \<Rightarrow> ('a, string, 'k::numeral) operation list" where
  "scenario a b c d =
     [Push a ''a'' 5, Push b ''b'' 2, Push c ''c'' 8, Pop, Push d ''d'' 6, Pop, Pop, Pop]"

text \<open>
  What the scenario leaves to the platform is the behaviour of \<open>new\<close>: every address it
  returns is fresh at the time of the call. Nothing is required after a call that does
  not return.
\<close>

fun allocation_fresh :: "('s::len word, 'v, 'p::len word) operation \<Rightarrow> ('v, 'p, 's) RadixHeap \<Rightarrow> bool" where
  "allocation_fresh (Push a v p) h \<longleftrightarrow> a \<noteq> 0 \<and> store h a = None"
| "allocation_fresh Pop h = True"

fun allocations_fresh :: "('s::len word, 'v, 'p::len word) operation list \<Rightarrow> ('v, 'p, 's) RadixHeap \<Rightarrow> bool" where
  "allocations_fresh [] h = True"
| "allocations_fresh (opn # ops) h \<longleftrightarrow>
     allocation_fresh opn h
     \<and> (case step opn h of None \<Rightarrow> True | Some (_, h1) \<Rightarrow> allocations_fresh ops h1)"

text \<open>A fresh heap with 32-bit priorities on a platform with 64-bit addresses.\<close>

definition fresh_heap :: "(string, 32, 64) RadixHeap" where
  "fresh_heap = RadixHeap_init Map.empty"

section \<open>Properties of msbSet\<close>

lemma msbSet_loop_zero: "msbSet_loop 0 i = i"
  by (simp add: msbSet_loop.simps)

lemma msbSet_loop_nz: "w \<noteq> 0 \<Longrightarrow> msbSet_loop w i = msbSet_loop (drop_bit 1 w) (Suc i)"
  by (subst msbSet_loop.simps) simp

lemma word_shift_induct [case_names zero shift]:
  fixes w :: "'a::len word"
  assumes "P 0" and "\<And>w. w \<noteq> 0 \<Longrightarrow> P (drop_bit 1 w) \<Longrightarrow> P w"
  shows "P w"
proof (induction w rule: measure_induct_rule [where f = unat])
  case (less w)
  show ?case
  proof (cases "w = 0")
    case True
    then show ?thesis using assms(1) by simp
  next
    case False
    then have "0 < unat w" by (simp add: unat_gt_0)
    then have "unat w div 2 < unat w" by simp
    then have "unat (drop_bit 1 w) < unat w"
      by (simp add: unat_div drop_bit_eq_div)
    then show ?thesis using less assms(2) False by blast
  qed
qed

lemma msbSet_loop_acc: "msbSet_loop w i = i + msbSet_loop w 0"
proof (induction w arbitrary: i rule: word_shift_induct)
  case zero
  show ?case by (simp add: msbSet_loop_zero)
next
  case (shift w)
  have "msbSet_loop w i = Suc i + msbSet_loop (drop_bit 1 w) 0"
    using shift.IH [of "Suc i"] shift.hyps by (simp add: msbSet_loop_nz)
  moreover have "msbSet_loop w 0 = Suc 0 + msbSet_loop (drop_bit 1 w) 0"
    using shift.IH [of "Suc 0"] shift.hyps by (simp add: msbSet_loop_nz)
  ultimately show ?case by simp
qed

lemma msbSet_zero [simp]: "msbSet 0 = 0"
  by (simp add: msbSet_def msbSet_loop_zero)

lemma msbSet_rec: "w \<noteq> 0 \<Longrightarrow> msbSet w = Suc (msbSet (drop_bit 1 w))"
  using msbSet_loop_acc [of "drop_bit 1 w" "Suc 0"]
  by (simp add: msbSet_def msbSet_loop_nz)

lemma word_nonzero_bit: "(w :: 'a::len word) \<noteq> 0 \<Longrightarrow> \<exists>j. bit w j"
  by (auto simp: bit_eq_iff)

lemma msbSet_bits_above: "msbSet w \<le> j \<Longrightarrow> \<not> bit w j"
proof (induction w arbitrary: j rule: word_shift_induct)
  case zero
  show ?case by simp
next
  case (shift w)
  from shift.prems shift.hyps obtain j' where j: "j = Suc j'" "msbSet (drop_bit 1 w) \<le> j'"
    by (cases j) (auto simp: msbSet_rec)
  then have "\<not> bit (drop_bit 1 w) j'" by (rule_tac shift.IH)
  then show ?case using j by (simp add: bit_drop_bit_eq)
qed

lemma msbSet_top_bit: "w \<noteq> 0 \<Longrightarrow> bit w (msbSet w - 1)"
proof (induction w rule: word_shift_induct)
  case zero
  then show ?case by simp
next
  case (shift w)
  show ?case
  proof (cases "drop_bit 1 w = 0")
    case True
    from shift.hyps obtain j where j: "bit w j" using word_nonzero_bit by blast
    have "j = 0"
    proof (cases j)
      case (Suc j')
      then have "bit (drop_bit 1 w) j'" using j by (simp add: bit_drop_bit_eq)
      then show ?thesis using True by simp
    qed simp
    then show ?thesis using j True shift.hyps by (simp add: msbSet_rec)
  next
    case False
    then have "bit (drop_bit 1 w) (msbSet (drop_bit 1 w) - 1)" by (rule shift.IH)
    moreover have "msbSet (drop_bit 1 w) \<noteq> 0" using False by (simp add: msbSet_rec)
    ultimately show ?thesis using shift.hyps by (simp add: msbSet_rec bit_drop_bit_eq)
  qed
qed

lemma msbSet_eq_0_iff [simp]: "msbSet w = 0 \<longleftrightarrow> w = 0"
  by (cases "w = 0") (simp_all add: msbSet_rec)

lemma msbSet_le_len: "msbSet (w :: 'a::len word) \<le> LENGTH('a)"
proof (cases "w = 0")
  case False
  then have "bit w (msbSet w - 1)" by (rule msbSet_top_bit)
  then have "msbSet w - 1 < LENGTH('a)" by (rule bit_imp_le_length)
  then show ?thesis by simp
qed simp

lemma msbSet_unique:
  assumes "bit w k" and "\<And>j. k < j \<Longrightarrow> \<not> bit w j"
  shows "msbSet w = Suc k"
proof -
  have nz: "w \<noteq> 0" using assms(1) by auto
  then have "bit w (msbSet w - 1)" by (rule msbSet_top_bit)
  then have "msbSet w - 1 \<le> k" using assms(2) by (meson not_le)
  moreover have "k < msbSet w" using assms(1) msbSet_bits_above [of w k] by (meson not_le)
  ultimately show ?thesis by simp
qed








lemma msbSet_le_iff: "msbSet w \<le> k \<longleftrightarrow> (\<forall>j\<ge>k. \<not> bit w j)"
proof
  assume "msbSet w \<le> k"
  then show "\<forall>j\<ge>k. \<not> bit w j" using msbSet_bits_above [of w] by (meson le_trans)
next
  assume *: "\<forall>j\<ge>k. \<not> bit w j"
  show "msbSet w \<le> k"
  proof (cases "w = 0")
    case False
    then have "bit w (msbSet w - 1)" by (rule msbSet_top_bit)
    then have "msbSet w - 1 < k" using * by (meson not_le)
    then show ?thesis by simp
  qed simp
qed

lemma msbSet_xor_le:
  "msbSet x \<le> k \<Longrightarrow> msbSet y \<le> k \<Longrightarrow> msbSet (x XOR y) \<le> k"
  by (simp add: msbSet_le_iff bit_xor_iff)

lemma msbSet_xor_less:
  assumes "msbSet x = k" "msbSet y = k" "0 < k"
  shows "msbSet (x XOR y) < k"
proof -
  have "msbSet x \<noteq> 0" "msbSet y \<noteq> 0" using assms by simp_all
  then have "x \<noteq> 0" "y \<noteq> 0" by (simp_all only: msbSet_eq_0_iff not_False_eq_True)
  then have "bit x (msbSet x - 1)" "bit y (msbSet y - 1)"
    using msbSet_top_bit [of x] msbSet_top_bit [of y] by simp_all
  then have "bit x (k - 1)" "bit y (k - 1)" by (simp_all only: assms)
  then have top: "\<not> bit (x XOR y) (k - 1)" by (simp add: bit_xor_iff)
  have "msbSet (x XOR y) \<le> k" by (rule msbSet_xor_le) (simp_all only: assms order_refl)
  then have above: "\<not> bit (x XOR y) j" if "k \<le> j" for j
    using that msbSet_bits_above [of "x XOR y" j] by simp
  have "\<not> bit (x XOR y) j" if "k - 1 \<le> j" for j
  proof (cases "j = k - 1")
    case True
    then show ?thesis using top by simp
  next
    case False
    then have "k \<le> j" using that by simp
    then show ?thesis by (rule above)
  qed
  then have "msbSet (x XOR y) \<le> k - 1" by (simp only: msbSet_le_iff) blast
  then show ?thesis using assms(3) by simp
qed

lemma msbSet_xor_greater:
  assumes "msbSet x < msbSet y"
  shows "msbSet (x XOR y) = msbSet y"
proof -
  let ?k = "msbSet y - 1"
  have "y \<noteq> 0" using assms by auto
  then have "bit y ?k" by (rule msbSet_top_bit)
  moreover have "\<not> bit x ?k" using assms by (intro msbSet_bits_above) simp
  ultimately have "bit (x XOR y) ?k" by (simp add: bit_xor_iff)
  moreover have "\<not> bit (x XOR y) j" if "?k < j" for j
    using that assms msbSet_bits_above [of x j] msbSet_bits_above [of y j]
    by (simp add: bit_xor_iff)
  ultimately have "msbSet (x XOR y) = Suc ?k" by (rule msbSet_unique)
  then show ?thesis using assms by simp
qed

text \<open>Changing the reference point within a lower bucket keeps the index of a higher one.\<close>

lemma bucket_index_stable:
  fixes m m' q :: "'a::len word"
  assumes "msbSet (m' XOR m) < msbSet (q XOR m)"
  shows "msbSet (q XOR m') = msbSet (q XOR m)"
proof -
  have "q XOR m' = (m' XOR m) XOR (q XOR m)"
    by (rule bit_eqI) (auto simp: bit_xor_iff)
  then show ?thesis using msbSet_xor_greater [OF assms] by simp
qed

lemma bucket_index_decreases:
  fixes m p q :: "'a::len word"
  assumes "msbSet (p XOR m) = i" "msbSet (q XOR m) = i" "0 < i"
  shows "msbSet (q XOR p) < i"
proof -
  have "q XOR p = (q XOR m) XOR (p XOR m)"
    by (rule bit_eqI) (auto simp: bit_xor_iff)
  then show ?thesis using msbSet_xor_less [OF assms(2) assms(1) assms(3)] by simp
qed

lemma nat_less_by_top_bit:
  fixes a b :: nat
  assumes "\<not> bit a k" "bit b k" "\<And>j. k < j \<Longrightarrow> bit a j = bit b j"
  shows "a < b"
proof -
  have hi: "drop_bit (Suc k) a = drop_bit (Suc k) b"
    using assms(3) by (intro bit_eqI) (simp add: bit_drop_bit_eq)
  have a: "a = push_bit (Suc k) (drop_bit (Suc k) a) + take_bit (Suc k) a"
    by (simp only: bits_ident)
  have b: "b = push_bit (Suc k) (drop_bit (Suc k) b) + take_bit (Suc k) b"
    by (simp only: bits_ident)
  have "take_bit (Suc k) a = take_bit k a"
    using assms(1) by (simp add: take_bit_Suc_from_most)
  then have "take_bit (Suc k) a < 2 ^ k" by simp
  moreover have "take_bit (Suc k) b = 2 ^ k + take_bit k b"
    using assms(2) by (simp add: take_bit_Suc_from_most)
  ultimately have "take_bit (Suc k) a < take_bit (Suc k) b" by simp
  then have "push_bit (Suc k) (drop_bit (Suc k) a) + take_bit (Suc k) a
      < push_bit (Suc k) (drop_bit (Suc k) b) + take_bit (Suc k) b"
    by (simp only: hi add_less_cancel_left)
  then show ?thesis by (simp only: bits_ident)
qed

lemma word_less_by_top_bit:
  fixes a b :: "'a::len word"
  assumes "\<not> bit a k" "bit b k" "\<And>j. k < j \<Longrightarrow> bit a j = bit b j"
  shows "a < b"
proof -
  have "unat a < unat b"
    using assms by (intro nat_less_by_top_bit [of _ k]) (simp_all add: bit_unsigned_iff)
  then show ?thesis by (simp add: word_less_nat_alt)
qed

lemma xor_bits_agree:
  fixes p m :: "'a::len word"
  assumes "msbSet (p XOR m) \<le> j"
  shows "bit p j = bit m j"
  using msbSet_bits_above [OF assms] by (simp add: bit_xor_iff)

lemma xor_top_bit_differs:
  fixes p m :: "'a::len word"
  assumes "msbSet (p XOR m) = Suc k"
  shows "bit p k \<noteq> bit m k"
proof -
  have "p XOR m \<noteq> 0" using assms by auto
  then have "bit (p XOR m) (msbSet (p XOR m) - 1)" by (rule msbSet_top_bit)
  then show ?thesis using assms by (simp add: bit_xor_iff)
qed

lemma above_minimum_top_bit:
  fixes p m :: "'a::len word"
  assumes "msbSet (p XOR m) = Suc k" "m \<le> p"
  shows "bit p k \<and> \<not> bit m k"
proof (rule ccontr)
  assume "\<not> (bit p k \<and> \<not> bit m k)"
  then have "\<not> bit p k" "bit m k" using xor_top_bit_differs [OF assms(1)] by auto
  moreover have "bit p j = bit m j" if "k < j" for j
    using that assms(1) by (intro xor_bits_agree) simp
  ultimately have "p < m" by (rule word_less_by_top_bit)
  then show False using assms(2) by simp
qed

text \<open>A node of a lower bucket has a smaller priority than a node of a higher bucket.\<close>

lemma lower_bucket_less:
  fixes p q m :: "'a::len word"
  assumes "msbSet (p XOR m) < msbSet (q XOR m)" "m \<le> q"
  shows "p < q"
proof -
  obtain k where k: "msbSet (q XOR m) = Suc k" using assms(1) by (cases "msbSet (q XOR m)") auto
  have q: "bit q k" "\<not> bit m k" using above_minimum_top_bit [OF k assms(2)] by auto
  have pm: "bit p j = bit m j" if "k \<le> j" for j
    using that assms(1) k by (intro xor_bits_agree) simp
  have qm: "bit q j = bit m j" if "k < j" for j
    using that k by (intro xor_bits_agree) simp
  show ?thesis
  proof (rule word_less_by_top_bit [of _ k])
    show "\<not> bit p k" using pm [of k] q by simp
    show "bit q k" by (rule q)
    show "bit p j = bit q j" if "k < j" for j using that pm [of j] qm [of j] by simp
  qed
qed

section \<open>Pointers and lists\<close>

lemma deref_Some_iff: "deref st a = Some n \<longleftrightarrow> a \<noteq> 0 \<and> st a = Some n"
  by (simp add: deref_def)

lemma deref_null [simp]: "deref st 0 = None"
  by (simp add: deref_def)

lemma deref_upd_same: "a \<noteq> 0 \<Longrightarrow> deref (st(a \<mapsto> n)) a = Some n"
  by (simp add: deref_def)

lemma set_prev_Some:
  "deref st a = Some n \<Longrightarrow> set_prev st a v = Some (st(a \<mapsto> n\<lparr>prev := v\<rparr>))"
  by (simp add: set_prev_def)

lemma set_next_Some:
  "deref st a = Some n \<Longrightarrow> set_next st a v = Some (st(a \<mapsto> n\<lparr>node_next := v\<rparr>))"
  by (simp add: set_next_def)

lemma lseg_cong:
  "(\<And>x. x \<in> set as \<Longrightarrow> map_option node_next (deref st' x) = map_option node_next (deref st x))
   \<Longrightarrow> lseg st' a as b = lseg st a as b"
proof (induction as arbitrary: a)
  case Nil
  show ?case by simp
next
  case (Cons x xs)
  have "map_option node_next (deref st' x) = map_option node_next (deref st x)"
    by (rule Cons.prems) simp
  moreover have "lseg st' c xs b = lseg st c xs b" for c
    by (rule Cons.IH) (simp add: Cons.prems)
  ultimately show ?case
    by (cases "deref st' x"; cases "deref st x") auto
qed

lemma lseg_upd_other:
  "x \<notin> set as \<Longrightarrow> lseg (st(x := y)) a as b = lseg st a as b"
  by (rule lseg_cong) (auto simp: deref_def)

lemma lseg_append:
  "lseg st a (xs @ ys) b \<longleftrightarrow> (\<exists>c. lseg st a xs c \<and> lseg st c ys b)"
  by (induction xs arbitrary: a) (auto split: option.splits)

lemma dll_lseg: "dll st p a as \<Longrightarrow> lseg st a as 0"
  by (induction as arbitrary: p a) (auto split: option.splits)

lemma dll_cong:
  "(\<And>x. x \<in> set as \<Longrightarrow> deref st' x = deref st x) \<Longrightarrow> dll st' p a as = dll st p a as"
proof (induction as arbitrary: p a)
  case Nil
  show ?case by simp
next
  case (Cons x xs)
  have "deref st' x = deref st x" by (rule Cons.prems) simp
  moreover have "dll st' q c xs = dll st q c xs" for q c
    by (rule Cons.IH) (simp add: Cons.prems)
  ultimately show ?case by (auto split: option.splits)
qed

lemma dll_upd_other:
  "x \<notin> set as \<Longrightarrow> dll (st(x := y)) p a as = dll st p a as"
  by (rule dll_cong) (auto simp: deref_def)

lemma dll_allocated: "dll st p a as \<Longrightarrow> x \<in> set as \<Longrightarrow> \<exists>n. deref st x = Some n"
  by (induction as arbitrary: p a) (auto split: option.splits)

lemma dll_head: "dll st p a as \<Longrightarrow> a = (if as = [] then 0 else hd as)"
  by (cases as) auto

lemma dll_null_iff: "dll st p a as \<Longrightarrow> a = 0 \<longleftrightarrow> as = []"
  by (cases as) (auto simp: deref_def split: option.splits if_splits)

lemma dll_middle:
  "dll st p a (xs @ m # ys) \<Longrightarrow>
   \<exists>n. deref st m = Some n \<and> prev n = (if xs = [] then p else last xs)
       \<and> lseg st (node_next n) ys 0"
proof (induction xs arbitrary: p a)
  case Nil
  then show ?case by (auto split: option.splits dest: dll_lseg)
next
  case (Cons x xs)
  from Cons.prems obtain n where n: "deref st x = Some n" "dll st x (node_next n) (xs @ m # ys)"
    by (auto split: option.splits)
  from Cons.IH [OF n(2)] show ?case by (cases xs) auto
qed

lemma nodes_from_lseg: "lseg st a as 0 \<Longrightarrow> nodes_from st a = Some as"
proof (induction as arbitrary: a)
  case Nil
  then show ?case by (simp add: nodes_from.simps)
next
  case (Cons x xs)
  then obtain n where n: "a = x" "deref st x = Some n" "lseg st (node_next n) xs 0"
    by (auto split: option.splits)
  then have "x \<noteq> 0" by (simp add: deref_Some_iff)
  then show ?case using n Cons.IH [OF n(3)] by (subst nodes_from.simps) simp
qed

subsection \<open>The scan for the least priority\<close>

lemma find_min_lseg:
  assumes "lseg st it as 0" "deref st mn = Some nm"
  shows "\<exists>m n. find_min st it mn = Some m \<and> deref st m = Some n \<and> (m = mn \<or> m \<in> set as)
           \<and> priority n \<le> priority nm
           \<and> (\<forall>a\<in>set as. \<forall>na. deref st a = Some na \<longrightarrow> priority n \<le> priority na)"
  using assms
proof (induction as arbitrary: it mn nm)
  case Nil
  then show ?case by (subst find_min.simps) simp
next
  case (Cons x xs)
  from Cons.prems(1) obtain nx where nx: "it = x" "deref st x = Some nx" "lseg st (node_next nx) xs 0"
    by (auto split: option.splits)
  then have x0: "x \<noteq> 0" by (simp add: deref_Some_iff)
  let ?mn = "if priority nx < priority nm then x else mn"
  let ?nm = "if priority nx < priority nm then nx else nm"
  have d: "deref st ?mn = Some ?nm" using nx Cons.prems(2) by simp
  from Cons.IH [OF nx(3) d] obtain m n where m:
    "find_min st (node_next nx) ?mn = Some m" "deref st m = Some n" "m = ?mn \<or> m \<in> set xs"
    "priority n \<le> priority ?nm"
    "\<forall>a\<in>set xs. \<forall>na. deref st a = Some na \<longrightarrow> priority n \<le> priority na"
    by blast
  have "find_min st it mn = Some m"
    using nx x0 Cons.prems(2) m(1) by (subst find_min.simps) (simp split: if_splits)
  moreover have "m = mn \<or> m \<in> set (x # xs)" using m(3) by (auto split: if_splits)
  moreover have "priority n \<le> priority nm" using m(4) by (auto split: if_splits)
  moreover have "priority n \<le> priority nx" using m(4) by (auto split: if_splits)
  ultimately show ?case using m(2) m(5) nx(2) by auto
qed

subsection \<open>Lists of lists\<close>

lemma concat_split_nth:
  assumes "i < length bs"
  shows "\<exists>pre post. concat bs = pre @ bs ! i @ post
           \<and> (\<forall>xs. concat (bs[i := xs]) = pre @ xs @ post)
           \<and> (\<forall>j<length bs. j \<noteq> i \<longrightarrow> set (bs ! j) \<subseteq> set pre \<union> set post)"
proof (intro exI conjI allI impI)
  let ?pre = "concat (take i bs)" and ?post = "concat (drop (Suc i) bs)"
  have bs: "bs = take i bs @ bs ! i # drop (Suc i) bs"
    using assms by (rule id_take_nth_drop)
  show "concat bs = ?pre @ bs ! i @ ?post"
    by (subst bs) simp
  show "concat (bs[i := xs]) = ?pre @ xs @ ?post" for xs
    using assms by (simp add: upd_conv_take_nth_drop)
  show "set (bs ! j) \<subseteq> set ?pre \<union> set ?post" if "j < length bs" "j \<noteq> i" for j
  proof (cases "j < i")
    case True
    then have "bs ! j \<in> set (take i bs)"
      using assms by (auto simp: in_set_conv_nth intro!: exI [of _ j])
    then show ?thesis by auto
  next
    case False
    then have "Suc i \<le> j" using that by simp
    then have "bs ! j = drop (Suc i) bs ! (j - Suc i)" "j - Suc i < length (drop (Suc i) bs)"
      using that by simp_all
    then have "bs ! j \<in> set (drop (Suc i) bs)" by (metis nth_mem)
    then show ?thesis by auto
  qed
qed

lemma in_concat_nth: "x \<in> set (concat bs) \<longleftrightarrow> (\<exists>j<length bs. x \<in> set (bs ! j))"
proof -
  have "x \<in> set (concat bs) \<longleftrightarrow> (\<exists>ys\<in>set bs. x \<in> set ys)" by simp
  also have "\<dots> \<longleftrightarrow> (\<exists>j<length bs. x \<in> set (bs ! j))" by (metis in_set_conv_nth)
  finally show ?thesis .
qed

lemma distinct_concat_nth:
  "distinct (concat bs) \<Longrightarrow> i < length bs \<Longrightarrow> distinct (bs ! i)"
  using concat_split_nth [of i bs] by auto

lemma distinct_concat_disjoint:
  assumes "distinct (concat bs)" "i < length bs" "j < length bs" "j \<noteq> i" "x \<in> set (bs ! i)"
  shows "x \<notin> set (bs ! j)"
proof -
  from concat_split_nth [OF assms(2)] obtain pre post where
    c: "concat bs = pre @ bs ! i @ post" and
    o: "\<forall>j<length bs. j \<noteq> i \<longrightarrow> set (bs ! j) \<subseteq> set pre \<union> set post" by blast
  have "x \<notin> set pre \<union> set post" using assms(1,5) unfolding c by auto
  then show ?thesis using o assms(3,4) by blast
qed

lemma mset_concat_update:
  "i < length bs \<Longrightarrow> mset (concat (bs[i := xs])) + mset (bs ! i) = mset (concat bs) + mset xs"
  using concat_split_nth [of i bs] by auto

lemma distinct_concat_cons:
  assumes "distinct (concat bs)" "i < length bs" "a \<notin> set (concat bs)"
  shows "distinct (concat (bs[i := a # bs ! i]))"
proof -
  from concat_split_nth [OF assms(2)] obtain pre post where
    c: "concat bs = pre @ bs ! i @ post" and
    u: "\<forall>xs. concat (bs[i := xs]) = pre @ xs @ post" by blast
  show ?thesis using assms(1,3) unfolding c u [rule_format] by auto
qed

subsection \<open>Linking a node at the head of a list\<close>

lemma node_data_eq_deref:
  assumes "node_data st' x = node_data st x" "deref st x = Some n"
  shows "\<exists>n'. deref st' x = Some n' \<and> node_value n' = node_value n \<and> priority n' = priority n"
  using assms by (auto simp: node_data_def)

lemma link_head:
  assumes l: "dll st 0 hp as" and d: "distinct as" and a: "a \<notin> set as"
    and n: "deref st a = Some n" "prev n = 0"
  shows "\<exists>st1 st2. set_next st a hp = Some st1
           \<and> (if hp \<noteq> 0 then set_prev st1 hp a else Some st1) = Some st2
           \<and> dll st2 0 a (a # as)
           \<and> (\<forall>x. x \<noteq> a \<longrightarrow> x \<noteq> hp \<longrightarrow> st2 x = st x)
           \<and> (\<forall>x. node_data st2 x = node_data st x)"
proof -
  let ?st1 = "st(a \<mapsto> n\<lparr>node_next := hp\<rparr>)"
  have a0: "a \<noteq> 0" using n(1) by (simp add: deref_Some_iff)
  have s1: "set_next st a hp = Some ?st1" using n(1) by (rule set_next_Some)
  show ?thesis
  proof (cases as)
    case Nil
    then have hp: "hp = 0" using l by simp
    have "dll ?st1 0 a [a]" using a0 n(2) hp by (simp add: deref_upd_same)
    moreover have "node_data ?st1 x = node_data st x" for x
      using n(1) by (auto simp: node_data_def deref_def)
    ultimately show ?thesis using s1 hp Nil by auto
  next
    case (Cons b bs')
    from l Cons obtain nb where nb: "hp = b" "deref st b = Some nb" "prev nb = 0"
      "dll st b (node_next nb) bs'"
      by (auto split: option.splits)
    have b0: "b \<noteq> 0" using nb(2) by (simp add: deref_Some_iff)
    have ab: "a \<noteq> b" "a \<notin> set bs'" "b \<notin> set bs'" using a d Cons by auto
    let ?st2 = "?st1(b \<mapsto> nb\<lparr>prev := a\<rparr>)"
    have "deref ?st1 b = Some nb" using nb(2) ab(1) by (auto simp: deref_def split: if_splits)
    then have s2: "set_prev ?st1 b a = Some ?st2" by (rule set_prev_Some)
    have "dll ?st2 b (node_next nb) bs' = dll st b (node_next nb) bs'"
      by (rule dll_cong) (use ab in \<open>auto simp: deref_def\<close>)
    then have "dll ?st2 0 a (a # b # bs')"
      using nb(1,4) a0 b0 ab(1) n(2) by (simp add: deref_def)
    moreover have "node_data ?st2 x = node_data st x" for x
      using n(1) nb(2) by (auto simp: node_data_def deref_def)
    ultimately show ?thesis using s1 s2 nb(1) b0 Cons by auto
  qed
qed

section \<open>The representation invariant\<close>

lemma heap_inv_length:
  fixes h :: "('v, 'p::len, 's::len) RadixHeap"
  shows "heap_inv h bs \<Longrightarrow> length (m_buckets h) = LENGTH('p) + 1 \<and> length bs = LENGTH('p) + 1"
  by (simp add: heap_inv_def)

lemma heap_inv_dll:
  fixes h :: "('v, 'p::len, 's::len) RadixHeap"
  shows "heap_inv h bs \<Longrightarrow> i \<le> LENGTH('p) \<Longrightarrow> dll (store h) 0 (m_buckets h ! i) (bs ! i)"
  by (simp add: heap_inv_def)

lemma heap_inv_distinct: "heap_inv h bs \<Longrightarrow> distinct (concat bs)"
  by (simp add: heap_inv_def)

lemma heap_inv_index:
  fixes h :: "('v, 'p::len, 's::len) RadixHeap"
  shows "heap_inv h bs \<Longrightarrow> i \<le> LENGTH('p) \<Longrightarrow> a \<in> set (bs ! i) \<Longrightarrow>
    \<exists>n. deref (store h) a = Some n \<and> msbSet (priority n XOR m_minimum h) = i
        \<and> m_minimum h \<le> priority n"
  by (simp add: heap_inv_def)

lemma heap_inv_mask:
  fixes h :: "('v, 'p::len, 's::len) RadixHeap"
  shows "heap_inv h bs \<Longrightarrow> 1 \<le> i \<Longrightarrow> i \<le> LENGTH('p) \<Longrightarrow>
    bit (m_bucketMask h) (LENGTH('p) - i) \<longleftrightarrow> bs ! i \<noteq> []"
  by (simp add: heap_inv_def)

lemma heap_invI:
  fixes h :: "('v, 'p::len, 's::len) RadixHeap"
  assumes "length (m_buckets h) = LENGTH('p) + 1" "length bs = LENGTH('p) + 1"
    and "\<And>i. i \<le> LENGTH('p) \<Longrightarrow> dll (store h) 0 (m_buckets h ! i) (bs ! i)"
    and "distinct (concat bs)"
    and "\<And>i a. i \<le> LENGTH('p) \<Longrightarrow> a \<in> set (bs ! i) \<Longrightarrow>
           \<exists>n. deref (store h) a = Some n \<and> msbSet (priority n XOR m_minimum h) = i
               \<and> m_minimum h \<le> priority n"
    and "\<And>i. 1 \<le> i \<Longrightarrow> i \<le> LENGTH('p) \<Longrightarrow>
           bit (m_bucketMask h) (LENGTH('p) - i) \<longleftrightarrow> bs ! i \<noteq> []"
  shows "heap_inv h bs"
  unfolding heap_inv_def using assms by blast

lemma heap_inv_member:
  fixes h :: "('v, 'p::len, 's::len) RadixHeap"
  assumes "heap_inv h bs" "a \<in> set (concat bs)"
  shows "\<exists>i n. i \<le> LENGTH('p) \<and> a \<in> set (bs ! i) \<and> deref (store h) a = Some n
           \<and> msbSet (priority n XOR m_minimum h) = i \<and> m_minimum h \<le> priority n"
proof -
  from assms(2) obtain i where i: "i < length bs" "a \<in> set (bs ! i)"
    using in_concat_nth [of a bs] by blast
  then have "i \<le> LENGTH('p)" using heap_inv_length [OF assms(1)] by simp
  then show ?thesis using heap_inv_index [OF assms(1) _ i(2)] i(2) by blast
qed

lemma bit_word_exp: "bit (2 ^ k :: 'a::len word) j \<longleftrightarrow> j = k \<and> k < LENGTH('a)"
  by (auto simp: bit_exp_iff possible_bit_word)

subsection \<open>insert\<close>

lemma insert_node_inv:
  fixes h :: "('v, 'p::len, 's::len) RadixHeap"
  assumes inv: "heap_inv h bs"
    and n: "deref (store h) a = Some n" "prev n = 0" "m_minimum h \<le> priority n"
    and a: "a \<notin> set (concat bs)"
    and i: "i = msbSet (priority n XOR m_minimum h)"
  shows "\<exists>h'. insert_node a h = Some h' \<and> heap_inv h' (bs[i := a # bs ! i])
           \<and> m_size h' = m_size h \<and> m_minimum h' = m_minimum h
           \<and> (\<forall>x. node_data (store h') x = node_data (store h) x)
           \<and> (\<forall>x. x \<noteq> a \<longrightarrow> x \<notin> set (concat bs) \<longrightarrow> store h' x = store h x)"
proof -
  let ?L = "LENGTH('p)"
  have len: "length (m_buckets h) = ?L + 1" "length bs = ?L + 1"
    using heap_inv_length [OF inv] by simp_all
  have iL: "i \<le> ?L" unfolding i by (rule msbSet_le_len)
  let ?hp = "m_buckets h ! i"
  have at: "bucket_at h i = Some ?hp" using iL len by (simp add: bucket_at_def)
  have l: "dll (store h) 0 ?hp (bs ! i)" using inv iL by (rule heap_inv_dll)
  have di: "distinct (bs ! i)"
    using heap_inv_distinct [OF inv] iL len by (intro distinct_concat_nth) simp_all
  have ai: "a \<notin> set (bs ! i)" using a iL len by (auto simp: in_concat_nth)
  from link_head [OF l di ai n(1,2)] obtain st1 st2 where
    s1: "set_next (store h) a ?hp = Some st1" and
    s2: "(if ?hp \<noteq> 0 then set_prev st1 ?hp a else Some st1) = Some st2" and
    l2: "dll st2 0 a (a # bs ! i)" and
    fr: "\<And>x. x \<noteq> a \<Longrightarrow> x \<noteq> ?hp \<Longrightarrow> st2 x = store h x" and
    nd: "\<And>x. node_data st2 x = node_data (store h) x"
    by blast
  let ?mask = "if i \<noteq> 0 then m_bucketMask h OR push_bit (?L - i) 1 else m_bucketMask h"
  let ?h' = "h\<lparr>m_buckets := (m_buckets h)[i := a], m_bucketMask := ?mask, store := st2\<rparr>"
  let ?bs' = "bs[i := a # bs ! i]"
  have ins: "insert_node a h = Some ?h'"
    using n(1) at s1 s2 by (simp add: insert_node_def i [symmetric] Let_def)
  have hp: "?hp = 0 \<or> ?hp \<in> set (bs ! i)" using l by (cases "bs ! i") auto
  have inv': "heap_inv ?h' ?bs'"
  proof (rule heap_invI)
    show "length (m_buckets ?h') = ?L + 1" "length ?bs' = ?L + 1" using len by simp_all
    show "dll (store ?h') 0 (m_buckets ?h' ! j) (?bs' ! j)" if "j \<le> ?L" for j
    proof (cases "j = i")
      case True
      then show ?thesis using l2 iL len by simp
    next
      case False
      have "dll st2 0 (m_buckets h ! j) (bs ! j) = dll (store h) 0 (m_buckets h ! j) (bs ! j)"
      proof (rule dll_cong)
        fix x assume x: "x \<in> set (bs ! j)"
        then have "x \<noteq> a" using a that len by (auto simp: in_concat_nth)
        moreover have "x \<noteq> ?hp \<or> x = 0"
          using hp x distinct_concat_disjoint [OF heap_inv_distinct [OF inv], of j i x] that iL len False
          by auto
        ultimately show "deref st2 x = deref (store h) x" using fr by (auto simp: deref_def)
      qed
      then show ?thesis using heap_inv_dll [OF inv that] False by simp
    qed
    show "distinct (concat ?bs')"
      using heap_inv_distinct [OF inv] iL len a by (intro distinct_concat_cons) simp_all
    show "\<exists>n'. deref (store ?h') x = Some n' \<and> msbSet (priority n' XOR m_minimum ?h') = j
             \<and> m_minimum ?h' \<le> priority n'"
      if j: "j \<le> ?L" and x: "x \<in> set (?bs' ! j)" for j x
    proof -
      have "\<exists>n'. deref (store h) x = Some n' \<and> msbSet (priority n' XOR m_minimum h) = j
             \<and> m_minimum h \<le> priority n'"
      proof (cases "j = i \<and> x = a")
        case True
        then show ?thesis using n i by simp
      next
        case False
        then have "x \<in> set (bs ! j)" using x iL len by (cases "j = i") auto
        then show ?thesis using inv j by (intro heap_inv_index)
      qed
      then obtain n' where n': "deref (store h) x = Some n'"
        "msbSet (priority n' XOR m_minimum h) = j" "m_minimum h \<le> priority n'" by blast
      from node_data_eq_deref [OF nd n'(1)] n'(2,3) show ?thesis by auto
    qed
    show "bit (m_bucketMask ?h') (?L - j) \<longleftrightarrow> ?bs' ! j \<noteq> []" if j: "1 \<le> j" "j \<le> ?L" for j
    proof (cases "j = i")
      case True
      then show ?thesis using j iL len by (simp add: bit_or_iff bit_word_exp)
    next
      case False
      then have "?L - i \<noteq> ?L - j" using j iL by auto
      then show ?thesis using heap_inv_mask [OF inv j] False
        by (simp add: bit_or_iff bit_word_exp)
    qed
  qed
  have "store ?h' x = store h x" if "x \<noteq> a" "x \<notin> set (concat bs)" for x
  proof (cases "x = ?hp")
    case True
    then have "?hp = 0" using hp that(2) iL len by (auto simp: in_concat_nth)
    then have "st2 = st1" "st1 = (store h)(a \<mapsto> n\<lparr>node_next := ?hp\<rparr>)"
      using s1 s2 n(1) by (simp_all add: set_next_Some)
    then show ?thesis using that(1) by simp
  next
    case False
    then show ?thesis using fr that(1) by simp
  qed
  then show ?thesis using ins inv' nd by auto
qed

lemma mset_concat_update_cons:
  assumes "i < length bs"
  shows "mset (concat (bs[i := a # bs ! i])) = add_mset a (mset (concat bs))"
proof -
  from concat_split_nth [OF assms] obtain pre post where
    c: "concat bs = pre @ bs ! i @ post" and
    u: "\<forall>xs. concat (bs[i := xs]) = pre @ xs @ post" by blast
  show ?thesis unfolding c u [rule_format] by simp
qed

lemma set_concat_update_cons:
  assumes "i < length bs"
  shows "set (concat (bs[i := a # bs ! i])) = insert a (set (concat bs))"
proof -
  have "set_mset (mset (concat (bs[i := a # bs ! i]))) = set_mset (add_mset a (mset (concat bs)))"
    by (simp only: mset_concat_update_cons [OF assms])
  then show ?thesis by (simp only: set_mset_mset set_mset_add_mset_insert)
qed

lemma heap_inv_frame:
  fixes h h' :: "('v, 'p::len, 's::len) RadixHeap"
  assumes "heap_inv h bs"
    and "\<And>x. x \<in> set (concat bs) \<Longrightarrow> deref (store h') x = deref (store h) x"
    and "m_buckets h' = m_buckets h" "m_minimum h' = m_minimum h"
      "m_bucketMask h' = m_bucketMask h"
  shows "heap_inv h' bs"
proof (rule heap_invI)
  let ?L = "LENGTH('p)"
  have len: "length (m_buckets h) = ?L + 1" "length bs = ?L + 1"
    using heap_inv_length [OF assms(1)] by simp_all
  show "length (m_buckets h') = ?L + 1" "length bs = ?L + 1" using len assms(3) by simp_all
  show "distinct (concat bs)" using assms(1) by (rule heap_inv_distinct)
  have same: "deref (store h') x = deref (store h) x" if "i \<le> ?L" "x \<in> set (bs ! i)" for i x
    using that len by (intro assms(2)) (auto simp: in_concat_nth)
  show "dll (store h') 0 (m_buckets h' ! i) (bs ! i)" if "i \<le> ?L" for i
  proof -
    have "dll (store h') 0 (m_buckets h ! i) (bs ! i) = dll (store h) 0 (m_buckets h ! i) (bs ! i)"
      using that by (intro dll_cong same)
    then show ?thesis using heap_inv_dll [OF assms(1) that] assms(3) by simp
  qed
  show "\<exists>n. deref (store h') a = Some n \<and> msbSet (priority n XOR m_minimum h') = i
          \<and> m_minimum h' \<le> priority n" if "i \<le> ?L" "a \<in> set (bs ! i)" for i a
    using heap_inv_index [OF assms(1) that] same [OF that] assms(4) by simp
  show "bit (m_bucketMask h') (?L - i) \<longleftrightarrow> bs ! i \<noteq> []" if "1 \<le> i" "i \<le> ?L" for i
    using heap_inv_mask [OF assms(1) that] assms(5) by simp
qed

lemma heap_inv_allocated:
  "heap_inv h bs \<Longrightarrow> a \<in> set (concat bs) \<Longrightarrow> \<exists>n. store h a = Some n \<and> a \<noteq> 0"
  using heap_inv_member [of h bs a] by (auto simp: deref_Some_iff)

subsection \<open>push\<close>

lemma push_inv:
  fixes h :: "('v, 'p::len, 's::len) RadixHeap"
  assumes inv: "heap_inv h bs"
    and a: "a \<noteq> 0" "store h a = None"
    and p: "m_minimum h \<le> p"
    and i: "i = msbSet (p XOR m_minimum h)"
  shows "\<exists>h'. push a v p h = Some (a, h') \<and> heap_inv h' (bs[i := a # bs ! i])
           \<and> m_size h' = m_size h + 1 \<and> m_minimum h' = m_minimum h
           \<and> node_data (store h') a = Some (v, p)
           \<and> (\<forall>x. x \<noteq> a \<longrightarrow> node_data (store h') x = node_data (store h) x)
           \<and> (\<forall>x. x \<noteq> a \<longrightarrow> store h x = None \<longrightarrow> store h' x = None)"
proof -
  let ?n = "\<lparr>node_value = v, priority = p, prev = 0, node_next = 0\<rparr> :: ('v, 'p, 's) RadixHeapNode"
  let ?h2 = "h\<lparr>m_size := m_size h + 1, store := (store h)(a \<mapsto> ?n)\<rparr>"
  have notin: "a \<notin> set (concat bs)" using heap_inv_allocated [OF inv, of a] a(2) by auto
  have inv2: "heap_inv ?h2 bs"
    using inv notin by (rule_tac heap_inv_frame [of h]) (auto simp: deref_def)
  have d: "deref (store ?h2) a = Some ?n" using a(1) by (simp add: deref_def)
  from insert_node_inv [OF inv2 d _ _ notin, of i] p i
  obtain h' where h': "insert_node a ?h2 = Some h'" "heap_inv h' (bs[i := a # bs ! i])"
    "m_size h' = m_size ?h2" "m_minimum h' = m_minimum ?h2"
    "\<And>x. node_data (store h') x = node_data (store ?h2) x"
    "\<And>x. x \<noteq> a \<Longrightarrow> x \<notin> set (concat bs) \<Longrightarrow> store h' x = store ?h2 x"
    by auto
  have "store h' x = None" if "x \<noteq> a" "store h x = None" for x
  proof -
    have "x \<notin> set (concat bs)" using heap_inv_allocated [OF inv, of x] that(2) by auto
    then show ?thesis using h'(6) [OF that(1)] that by simp
  qed
  moreover
  have "push a v p h = Some (a, h')" using a h'(1) by (simp add: push_def Let_def)
  moreover have "node_data (store h') a = Some (v, p)"
    using h'(5) [of a] a(1) by (simp add: node_data_def deref_def)
  moreover have "node_data (store h') x = node_data (store h) x" if "x \<noteq> a" for x
    using h'(5) [of x] that by (simp add: node_data_def deref_def)
  ultimately show ?thesis using h'(2,3,4) by simp
qed

subsection \<open>The redistribution loop\<close>

lemma redistribute_inv:
  fixes h :: "('v, 'p::len, 's::len) RadixHeap"
  assumes "heap_inv h bs" "lseg (store h) c rs 0" "distinct rs"
    and "set rs \<inter> set (concat bs) = {}"
    and "\<And>x. x \<in> set rs \<Longrightarrow> \<exists>n. deref (store h) x = Some n \<and> m_minimum h \<le> priority n"
  shows "\<exists>h' bs'. redistribute c h = Some h' \<and> heap_inv h' bs'
           \<and> m_size h' = m_size h \<and> m_minimum h' = m_minimum h
           \<and> (\<forall>x. node_data (store h') x = node_data (store h) x)
           \<and> mset (concat bs') = mset (concat bs) + mset rs"
  using assms
proof (induction rs arbitrary: c h bs)
  case Nil
  then have "redistribute c h = Some h" by (subst redistribute.simps) simp
  then show ?case using Nil.prems(1) by auto
next
  case (Cons r rs)
  let ?L = "LENGTH('p)"
  have len: "length bs = ?L + 1" using heap_inv_length [OF Cons.prems(1)] by simp
  from Cons.prems(2) obtain nb where nb: "c = r" "deref (store h) r = Some nb"
    "lseg (store h) (node_next nb) rs 0"
    by (auto split: option.splits)
  have r0: "r \<noteq> 0" using nb(2) by (simp add: deref_Some_iff)
  have rbs: "r \<notin> set (concat bs)" "r \<notin> set rs" using Cons.prems(3,4) by auto
  let ?n = "nb\<lparr>prev := 0\<rparr>"
  let ?h1 = "h\<lparr>store := (store h)(r \<mapsto> ?n)\<rparr>"
  have sp: "set_prev (store h) r 0 = Some (store ?h1)" using nb(2) by (simp add: set_prev_Some)
  have inv1: "heap_inv ?h1 bs"
    using Cons.prems(1) rbs(1) by (rule_tac heap_inv_frame [of h]) (auto simp: deref_def)
  have d1: "deref (store ?h1) r = Some ?n" using r0 by (simp add: deref_def)
  have ge: "m_minimum ?h1 \<le> priority ?n" using Cons.prems(5) [of r] nb(2) by simp
  define i where "i = msbSet (priority ?n XOR m_minimum ?h1)"
  have iL: "i \<le> ?L" unfolding i_def by (rule msbSet_le_len)
  from insert_node_inv [OF inv1 d1 _ ge rbs(1) i_def]
  obtain h2 where h2: "insert_node r ?h1 = Some h2" "heap_inv h2 (bs[i := r # bs ! i])"
    "m_size h2 = m_size h" "m_minimum h2 = m_minimum h"
    "\<And>x. node_data (store h2) x = node_data (store ?h1) x"
    "\<And>x. x \<noteq> r \<Longrightarrow> x \<notin> set (concat bs) \<Longrightarrow> store h2 x = store ?h1 x"
    by auto
  have nd: "node_data (store h2) x = node_data (store h) x" for x
    using h2(5) [of x] nb(2) by (auto simp: node_data_def deref_def)
  have same: "store h2 x = store h x" if "x \<in> set rs" for x
    using h2(6) [of x] that Cons.prems(3,4) by auto
  have "lseg (store h2) (node_next nb) rs 0 = lseg (store h) (node_next nb) rs 0"
    by (rule lseg_cong) (simp add: same deref_def)
  then have l2: "lseg (store h2) (node_next nb) rs 0" using nb(3) by simp
  have "set (concat (bs[i := r # bs ! i])) = insert r (set (concat bs))"
    using iL len by (intro set_concat_update_cons) simp
  then have dis: "set rs \<inter> set (concat (bs[i := r # bs ! i])) = {}"
    using Cons.prems(3,4) by (simp only: Int_insert_right) (simp split: if_splits)
  have ge2: "\<exists>n. deref (store h2) x = Some n \<and> m_minimum h2 \<le> priority n" if "x \<in> set rs" for x
  proof -
    from Cons.prems(5) [of x] that obtain n where "deref (store h) x = Some n"
      "m_minimum h \<le> priority n" by auto
    then show ?thesis using node_data_eq_deref [OF nd, of x n] h2(4) by auto
  qed
  from Cons.IH [OF h2(2) l2 _ dis ge2] Cons.prems(3)
  obtain h' bs' where h': "redistribute (node_next nb) h2 = Some h'" "heap_inv h' bs'"
    "m_size h' = m_size h2" "m_minimum h' = m_minimum h2"
    "\<And>x. node_data (store h') x = node_data (store h2) x"
    "mset (concat bs') = mset (concat (bs[i := r # bs ! i])) + mset rs"
    by auto
  have "redistribute c h = Some h'"
    using nb(1,2) r0 sp h2(1) h'(1) by (subst redistribute.simps) (simp add: Let_def)
  moreover have "mset (concat bs') = mset (concat bs) + mset (r # rs)"
    using h'(6) iL len by (simp add: mset_concat_update_cons)
  ultimately show ?case using h'(2,3,4,5) h2(3,4) nd by auto
qed

subsection \<open>pop: a node of bucket 0\<close>

lemma distinct_concat_sublist:
  assumes "distinct (concat bs)" "i < length bs" "distinct xs" "set xs \<subseteq> set (bs ! i)"
  shows "distinct (concat (bs[i := xs]))"
proof -
  from concat_split_nth [OF assms(2)] obtain pre post where
    c: "concat bs = pre @ bs ! i @ post" and
    u: "\<forall>xs. concat (bs[i := xs]) = pre @ xs @ post" by blast
  show ?thesis using assms(1,3,4) unfolding c u [rule_format] by auto
qed

lemma xor_eq_0_iff: "(x :: 'a::len word) XOR y = 0 \<longleftrightarrow> x = y"
  by (metis xor.left_neutral xor.assoc xor_self_eq xor.commute)

lemma heap_inv_bucket0:
  assumes "heap_inv h bs" "a \<in> set (bs ! 0)"
  shows "\<exists>n. deref (store h) a = Some n \<and> priority n = m_minimum h"
proof -
  from heap_inv_index [OF assms(1) _ assms(2)] obtain n where
    n: "deref (store h) a = Some n" "msbSet (priority n XOR m_minimum h) = 0" by auto
  then have "priority n XOR m_minimum h = 0" by simp
  then show ?thesis using n(1) by (simp add: xor_eq_0_iff)
qed

lemma pop_front_inv:
  fixes h :: "('v, 'p::len, 's::len) RadixHeap"
  assumes inv: "heap_inv h bs" and b0: "m_buckets h ! 0 = b0" "b0 \<noteq> 0"
  shows "\<exists>n0 rest st'. bs ! 0 = b0 # rest \<and> deref (store h) b0 = Some n0
           \<and> priority n0 = m_minimum h
           \<and> pop_front b0 h = Some ((node_value n0, priority n0),
                 h\<lparr>m_buckets := (m_buckets h)[0 := node_next n0], store := st'\<rparr>)
           \<and> heap_inv (h\<lparr>m_buckets := (m_buckets h)[0 := node_next n0], store := st'\<rparr>)
                 (bs[0 := rest])
           \<and> (\<forall>x. node_data st' x = node_data (store h) x)
           \<and> (\<forall>x. x \<noteq> node_next n0 \<longrightarrow> st' x = store h x)
           \<and> (\<forall>x. store h x = None \<longrightarrow> st' x = None)"
proof -
  let ?L = "LENGTH('p)"
  have len: "length (m_buckets h) = ?L + 1" "length bs = ?L + 1"
    using heap_inv_length [OF inv] by simp_all
  have l0: "dll (store h) 0 b0 (bs ! 0)" using heap_inv_dll [OF inv, of 0] b0(1) by simp
  then obtain rest where rest: "bs ! 0 = b0 # rest" using b0(2) by (cases "bs ! 0") auto
  then obtain n0 where n0: "deref (store h) b0 = Some n0" "dll (store h) b0 (node_next n0) rest"
    using l0 by (auto split: option.splits)
  have pr: "priority n0 = m_minimum h"
    using heap_inv_bucket0 [OF inv, of b0] rest n0(1) by simp
  have d0: "distinct (b0 # rest)"
    using distinct_concat_nth [OF heap_inv_distinct [OF inv], of 0] len rest by simp
  let ?nx = "node_next n0"
  obtain st' where st': "(if ?nx \<noteq> 0 then set_prev (store h) ?nx 0 else Some (store h)) = Some st'"
    "dll st' 0 ?nx rest" "\<And>x. x \<noteq> ?nx \<Longrightarrow> st' x = store h x"
    "\<And>x. node_data st' x = node_data (store h) x"
    "\<And>x. store h x = None \<Longrightarrow> st' x = None"
  proof (cases rest)
    case Nil
    then have "?nx = 0" using n0(2) by simp
    then show ?thesis using that [of "store h"] Nil by simp
  next
    case (Cons c cs)
    from n0(2) Cons obtain nc where nc: "?nx = c" "deref (store h) c = Some nc"
      "dll (store h) c (node_next nc) cs" by (auto split: option.splits)
    have c0: "c \<noteq> 0" using nc(2) by (simp add: deref_Some_iff)
    let ?st = "(store h)(c \<mapsto> nc\<lparr>prev := 0\<rparr>)"
    have "dll ?st c (node_next nc) cs = dll (store h) c (node_next nc) cs"
      using d0 Cons by (intro dll_upd_other) simp
    then have "dll ?st 0 ?nx rest" using nc c0 Cons by (simp add: deref_def)
    moreover have "node_data ?st x = node_data (store h) x" for x
      using nc(2) by (auto simp: node_data_def deref_def)
    moreover have "?st x = None" if "store h x = None" for x
      using that nc(2) by (auto simp: deref_Some_iff)
    ultimately show ?thesis using that [of ?st] nc(1,2) c0 by (simp add: set_prev_Some)
  qed
  let ?h' = "h\<lparr>m_buckets := (m_buckets h)[0 := ?nx], store := st'\<rparr>"
  have pf: "pop_front b0 h = Some ((node_value n0, priority n0), ?h')"
    using n0(1) st'(1) by (auto simp: pop_front_def Let_def split: if_splits)
  have nxr: "?nx = 0 \<or> ?nx \<in> set rest" using st'(2) by (cases rest) auto
  have "heap_inv ?h' (bs[0 := rest])"
  proof (rule heap_invI)
    show "length (m_buckets ?h') = ?L + 1" "length (bs[0 := rest]) = ?L + 1" using len by simp_all
    show "distinct (concat (bs[0 := rest]))"
      using heap_inv_distinct [OF inv] d0 len rest by (intro distinct_concat_sublist) auto
    show "dll (store ?h') 0 (m_buckets ?h' ! j) (bs[0 := rest] ! j)" if "j \<le> ?L" for j
    proof (cases "j = 0")
      case True
      then show ?thesis using st'(2) len by simp
    next
      case False
      have "dll st' 0 (m_buckets h ! j) (bs ! j) = dll (store h) 0 (m_buckets h ! j) (bs ! j)"
      proof (rule dll_cong)
        fix x assume x: "x \<in> set (bs ! j)"
        have "x \<noteq> ?nx \<or> x = 0"
          using nxr x distinct_concat_disjoint [OF heap_inv_distinct [OF inv], of j 0 x] that len
            False rest by auto
        then show "deref st' x = deref (store h) x" using st'(3) by (auto simp: deref_def)
      qed
      then show ?thesis using heap_inv_dll [OF inv that] False by simp
    qed
    show "\<exists>n. deref (store ?h') x = Some n \<and> msbSet (priority n XOR m_minimum ?h') = j
             \<and> m_minimum ?h' \<le> priority n" if j: "j \<le> ?L" and x: "x \<in> set (bs[0 := rest] ! j)" for j x
    proof -
      have "x \<in> set (bs ! j)" using x len rest by (cases "j = 0") auto
      from heap_inv_index [OF inv j this] obtain n where n: "deref (store h) x = Some n"
        "msbSet (priority n XOR m_minimum h) = j" "m_minimum h \<le> priority n" by blast
      from node_data_eq_deref [OF st'(4) n(1)] n(2,3) show ?thesis by auto
    qed
    show "bit (m_bucketMask ?h') (?L - j) \<longleftrightarrow> bs[0 := rest] ! j \<noteq> []" if "1 \<le> j" "j \<le> ?L" for j
      using heap_inv_mask [OF inv that] that by simp
  qed
  then show ?thesis using rest n0(1) pr pf st'(3,4,5) by blast
qed

subsection \<open>pop: detaching the lowest bucket\<close>

lemma take_bucket_inv:
  fixes h :: "('v, 'p::len, 's::len) RadixHeap"
  assumes inv: "heap_inv h bs" and e0: "bs ! 0 = []" and ne: "concat bs \<noteq> []"
    and ind: "ind = LENGTH('p) + 1 - msbSet (m_bucketMask h)"
  shows "1 \<le> ind \<and> ind \<le> LENGTH('p) \<and> bs ! ind \<noteq> [] \<and> (\<forall>j<ind. bs ! j = [])
           \<and> take_bucket h = Some (ind, m_buckets h ! ind,
                h\<lparr>m_buckets := (m_buckets h)[ind := 0],
                   m_bucketMask := m_bucketMask h XOR push_bit (LENGTH('p) - ind) 1\<rparr>)
           \<and> heap_inv (h\<lparr>m_buckets := (m_buckets h)[ind := 0],
                   m_bucketMask := m_bucketMask h XOR push_bit (LENGTH('p) - ind) 1\<rparr>)
                (bs[ind := []])"
proof -
  let ?L = "LENGTH('p)"
  let ?r = "msbSet (m_bucketMask h)"
  have len: "length (m_buckets h) = ?L + 1" "length bs = ?L + 1"
    using heap_inv_length [OF inv] by simp_all
  from ne obtain j where j: "j < length bs" "bs ! j \<noteq> []"
    by (metis concat_eq_Nil_conv in_set_conv_nth)
  then have j1: "1 \<le> j" "j \<le> ?L" using e0 len by (cases "j = 0"; simp)+
  then have "bit (m_bucketMask h) (?L - j)" using heap_inv_mask [OF inv j1] j(2) by simp
  then have nz: "m_bucketMask h \<noteq> 0" by auto
  then have "?r \<noteq> 0" by simp
  then have "1 \<le> ?r" by arith
  then have r: "1 \<le> ?r" "?r \<le> ?L" using msbSet_le_len [of "m_bucketMask h"] by simp_all
  have i1: "1 \<le> ind" "ind \<le> ?L" using r ind by simp_all
  have Li: "?L - ind = ?r - 1" using r ind by simp
  have "bit (m_bucketMask h) (?r - 1)" using nz by (rule msbSet_top_bit)
  then have bi: "bs ! ind \<noteq> []" using heap_inv_mask [OF inv i1] Li by simp
  have below: "bs ! k = []" if "k < ind" for k
  proof (cases "k = 0")
    case True
    then show ?thesis using e0 by simp
  next
    case False
    then have k: "1 \<le> k" "k \<le> ?L" using that i1 by simp_all
    have "?r \<le> ?L - k" using that r ind by simp
    then have "\<not> bit (m_bucketMask h) (?L - k)" by (rule msbSet_bits_above)
    then show ?thesis using heap_inv_mask [OF inv k] by simp
  qed
  let ?h1 = "h\<lparr>m_buckets := (m_buckets h)[ind := 0],
                 m_bucketMask := m_bucketMask h XOR push_bit (?L - ind) 1\<rparr>"
  have tb: "take_bucket h = Some (ind, m_buckets h ! ind, ?h1)"
    unfolding take_bucket_def Let_def ind [symmetric]
    using i1 len by (simp add: bucket_at_def)
  have "heap_inv ?h1 (bs[ind := []])"
  proof (rule heap_invI)
    show "length (m_buckets ?h1) = ?L + 1" "length (bs[ind := []]) = ?L + 1" using len by simp_all
    show "distinct (concat (bs[ind := []]))"
      using heap_inv_distinct [OF inv] i1 len by (intro distinct_concat_sublist) simp_all
    show "dll (store ?h1) 0 (m_buckets ?h1 ! k) (bs[ind := []] ! k)" if "k \<le> ?L" for k
      using heap_inv_dll [OF inv that] len i1 by (cases "k = ind") simp_all
    show "\<exists>n. deref (store ?h1) x = Some n \<and> msbSet (priority n XOR m_minimum ?h1) = k
             \<and> m_minimum ?h1 \<le> priority n" if k: "k \<le> ?L" and x: "x \<in> set (bs[ind := []] ! k)" for k x
    proof -
      have "x \<in> set (bs ! k)" using x len i1 by (cases "k = ind") auto
      from heap_inv_index [OF inv k this] show ?thesis by simp
    qed
    show "bit (m_bucketMask ?h1) (?L - k) \<longleftrightarrow> bs[ind := []] ! k \<noteq> []" if k: "1 \<le> k" "k \<le> ?L" for k
    proof (cases "k = ind")
      case True
      then show ?thesis using heap_inv_mask [OF inv k] bi len i1
        by (simp add: bit_xor_iff bit_word_exp)
    next
      case False
      then have "?L - k \<noteq> ?L - ind" using k i1 by auto
      then show ?thesis using heap_inv_mask [OF inv k] False
        by (simp add: bit_xor_iff bit_word_exp)
    qed
  qed
  then show ?thesis using i1 bi below tb by blast
qed

subsection \<open>pop: unlinking the node of least priority\<close>

lemma lseg_snoc:
  "lseg st a (xs @ [l]) b \<longleftrightarrow> lseg st a xs l \<and> (\<exists>n. deref st l = Some n \<and> node_next n = b)"
  by (auto simp: lseg_append split: option.splits)

lemma bypass_prev:
  assumes l: "lseg st b xs m" and d: "distinct (xs @ [m])"
    and n: "deref st m = Some n" "prev n = (if xs = [] then 0 else last xs)"
  shows "\<exists>st1 b1. (if prev n \<noteq> 0
                    then do { st' \<leftarrow> set_next st (prev n) (node_next n); Some (st', b) }
                    else Some (st, node_next n)) = Some (st1, b1)
           \<and> lseg st1 b1 xs (node_next n)
           \<and> (\<forall>x. x \<notin> set xs \<longrightarrow> st1 x = st x)
           \<and> (\<forall>x. node_data st1 x = node_data st x)"
proof (cases xs rule: rev_cases)
  case Nil
  then show ?thesis using n(2) by simp
next
  case (snoc xs' l')
  from l snoc obtain nl where nl: "lseg st b xs' l'" "deref st l' = Some nl" "node_next nl = m"
    by (auto simp: lseg_snoc)
  have l0: "l' \<noteq> 0" using nl(2) by (simp add: deref_Some_iff)
  have pn: "prev n = l'" using n(2) snoc by simp
  let ?st1 = "st(l' \<mapsto> nl\<lparr>node_next := node_next n\<rparr>)"
  have "lseg ?st1 b xs' l' = lseg st b xs' l'"
    using d snoc by (intro lseg_upd_other) simp
  then have "lseg ?st1 b (xs' @ [l']) (node_next n)"
    using nl(1) l0 by (simp add: lseg_snoc deref_def)
  moreover have "node_data ?st1 x = node_data st x" for x
    using nl(2) by (auto simp: node_data_def deref_def)
  ultimately show ?thesis using pn l0 nl(2) snoc by (simp add: set_next_Some)
qed

lemma fix_next_prev:
  assumes "lseg st c ys 0"
  shows "\<exists>st2. (if c \<noteq> 0 then set_prev st c q else Some st) = Some st2
           \<and> (\<forall>x. map_option node_next (deref st2 x) = map_option node_next (deref st x))
           \<and> (\<forall>x. x \<notin> set ys \<longrightarrow> st2 x = st x)
           \<and> (\<forall>x. node_data st2 x = node_data st x)"
proof (cases ys)
  case Nil
  then show ?thesis using assms by simp
next
  case (Cons y ys')
  from assms Cons obtain ny where ny: "c = y" "deref st y = Some ny"
    by (auto split: option.splits)
  have y0: "y \<noteq> 0" using ny(2) by (simp add: deref_Some_iff)
  let ?st2 = "st(y \<mapsto> ny\<lparr>prev := q\<rparr>)"
  have "map_option node_next (deref ?st2 x) = map_option node_next (deref st x)" for x
    using ny(2) by (auto simp: deref_def)
  moreover have "node_data ?st2 x = node_data st x" for x
    using ny(2) by (auto simp: node_data_def deref_def)
  ultimately show ?thesis using ny y0 Cons by (simp add: set_prev_Some)
qed

lemma unlink_min_spec:
  fixes h :: "('v, 'p::len, 's::len) RadixHeap"
  assumes l: "dll (store h) 0 b (xs @ m # ys)" and d: "distinct (xs @ m # ys)"
  shows "\<exists>n st' b'. deref (store h) m = Some n
           \<and> unlink_min m b h = Some ((node_value n, priority n), b',
                 h\<lparr>m_minimum := priority n, store := st'\<rparr>)
           \<and> lseg st' b' (xs @ ys) 0
           \<and> (\<forall>x. x \<notin> set (xs @ m # ys) \<longrightarrow> st' x = store h x)
           \<and> (\<forall>x. x \<noteq> m \<longrightarrow> node_data st' x = node_data (store h) x)"
proof -
  let ?st = "store h"
  from dll_middle [OF l] obtain n where n: "deref ?st m = Some n"
    "prev n = (if xs = [] then 0 else last xs)" "lseg ?st (node_next n) ys 0" by blast
  have m0: "m \<noteq> 0" using n(1) by (simp add: deref_Some_iff)
  have "lseg ?st b (xs @ m # ys) 0" using l by (rule dll_lseg)
  then have lx: "lseg ?st b xs m" by (auto simp: lseg_append)
  have dx: "distinct (xs @ [m])" using d by simp
  from bypass_prev [OF lx dx n(1,2)] obtain st1 b1 where s1:
    "(if prev n \<noteq> 0 then do { st' \<leftarrow> set_next ?st (prev n) (node_next n); Some (st', b) }
      else Some (?st, node_next n)) = Some (st1, b1)"
    "lseg st1 b1 xs (node_next n)" "\<And>x. x \<notin> set xs \<Longrightarrow> st1 x = ?st x"
    "\<And>x. node_data st1 x = node_data ?st x" by blast
  have n2: "deref st1 m = Some n" using s1(3) [of m] n(1) d by (simp add: deref_Some_iff)
  have "st1 x = ?st x" if "x \<in> set ys" for x
    using that d by (intro s1(3)) auto
  then have "lseg st1 (node_next n) ys 0 = lseg ?st (node_next n) ys 0"
    by (intro lseg_cong) (simp add: deref_def)
  then have ly: "lseg st1 (node_next n) ys 0" using n(3) by simp
  from fix_next_prev [OF ly, of "prev n"] obtain st2 where s2:
    "(if node_next n \<noteq> 0 then set_prev st1 (node_next n) (prev n) else Some st1) = Some st2"
    "\<And>x. map_option node_next (deref st2 x) = map_option node_next (deref st1 x)"
    "\<And>x. x \<notin> set ys \<Longrightarrow> st2 x = st1 x"
    "\<And>x. node_data st2 x = node_data st1 x" by blast
  have n3: "deref st2 m = Some n" using s2(3) [of m] n2 d by (simp add: deref_Some_iff)
  let ?st' = "st2(m := None)"
  have un: "unlink_min m b h = Some ((node_value n, priority n), b1,
              h\<lparr>m_minimum := priority n, store := ?st'\<rparr>)"
    using n(1) s1(1) n2 s2(1) n3 by (simp add: unlink_min_def Let_def)
  have "lseg st2 b1 (xs @ ys) 0 = lseg st1 b1 (xs @ ys) 0"
    by (rule lseg_cong) (rule s2(2))
  moreover have "lseg st1 b1 (xs @ ys) 0" using s1(2) ly by (auto simp: lseg_append)
  moreover have "lseg ?st' b1 (xs @ ys) 0 = lseg st2 b1 (xs @ ys) 0"
    using d by (intro lseg_upd_other) simp
  ultimately have l': "lseg ?st' b1 (xs @ ys) 0" by simp
  have "?st' x = ?st x" if "x \<notin> set (xs @ m # ys)" for x
    using that s1(3) [of x] s2(3) [of x] by simp
  moreover have "node_data ?st' x = node_data ?st x" if "x \<noteq> m" for x
  proof -
    have "node_data ?st' x = node_data st2 x" using that by (simp add: node_data_def deref_def)
    then show ?thesis using s1(4) [of x] s2(4) [of x] by simp
  qed
  ultimately show ?thesis using n(1) un l' by blast
qed

subsection \<open>pop: draining the lowest bucket\<close>

lemma heap_inv_size_update [simp]: "heap_inv (h\<lparr>m_size := s\<rparr>) bs = heap_inv h bs"
  by (simp add: heap_inv_def)

lemma heap_inv_empty_bucket:
  fixes h :: "('v, 'p::len, 's::len) RadixHeap"
  assumes "heap_inv h bs" "i \<le> LENGTH('p)"
  shows "m_buckets h ! i = 0 \<longleftrightarrow> bs ! i = []"
  using heap_inv_dll [OF assms] by (rule dll_null_iff)

lemma pop_slow_inv:
  fixes h :: "('v, 'p::len, 's::len) RadixHeap"
  assumes inv: "heap_inv h bs" and e0: "bs ! 0 = []" and ne: "concat bs \<noteq> []"
  shows "\<exists>ind bucket h1 m n b' h2 h3 bs3 xs ys.
           take_bucket h = Some (ind, bucket, h1)
           \<and> 1 \<le> ind \<and> ind \<le> LENGTH('p) \<and> (\<forall>j<ind. bs ! j = []) \<and> bs ! ind = xs @ m # ys
           \<and> find_min (store h1) bucket bucket = Some m
           \<and> deref (store h) m = Some n
           \<and> unlink_min m bucket h1 = Some ((node_value n, priority n), b', h2)
           \<and> lseg (store h2) b' (xs @ ys) 0
           \<and> m_minimum h2 = priority n
           \<and> (\<forall>x. x \<noteq> m \<longrightarrow> node_data (store h2) x = node_data (store h) x)
           \<and> redistribute b' h2 = Some h3
           \<and> heap_inv h3 bs3
           \<and> mset (concat bs) = add_mset m (mset (concat bs3))
           \<and> m_size h3 = m_size h \<and> m_minimum h3 = priority n \<and> m_minimum h \<le> priority n
           \<and> (\<forall>x. node_data (store h3) x = node_data (store h2) x)"
proof -
  let ?L = "LENGTH('p)"
  define ind where "ind = ?L + 1 - msbSet (m_bucketMask h)"
  define h1 where "h1 = h\<lparr>m_buckets := (m_buckets h)[ind := 0],
     m_bucketMask := m_bucketMask h XOR push_bit (?L - ind) 1\<rparr>"
  define bs1 where "bs1 = bs[ind := []]"
  define bucket where "bucket = m_buckets h ! ind"
  have len: "length (m_buckets h) = ?L + 1" "length bs = ?L + 1"
    using heap_inv_length [OF inv] by simp_all
  from take_bucket_inv [OF inv e0 ne ind_def]
  have i1: "1 \<le> ind" "ind \<le> ?L" and B: "bs ! ind \<noteq> []" and below: "\<forall>j<ind. bs ! j = []"
    and tb: "take_bucket h = Some (ind, bucket, h1)" and inv1: "heap_inv h1 bs1"
    unfolding h1_def bs1_def bucket_def by simp_all
  have st1: "store h1 = store h" "m_minimum h1 = m_minimum h" by (simp_all add: h1_def)
  have lB: "dll (store h) 0 bucket (bs ! ind)"
    unfolding bucket_def using inv i1(2) by (rule heap_inv_dll)
  then have sB: "lseg (store h) bucket (bs ! ind) 0" by (rule dll_lseg)
  have bB: "bucket \<in> set (bs ! ind)" using lB B by (cases "bs ! ind") auto
  then obtain nb where nb: "deref (store h) bucket = Some nb"
    using dll_allocated [OF lB] by blast
  from find_min_lseg [OF sB nb] bB obtain m n where m:
    "find_min (store h) bucket bucket = Some m" "deref (store h) m = Some n" "m \<in> set (bs ! ind)"
    "\<forall>a\<in>set (bs ! ind). \<forall>na. deref (store h) a = Some na \<longrightarrow> priority n \<le> priority na"
    by blast
  from m(3) obtain xs ys where split: "bs ! ind = xs @ m # ys" by (meson split_list)
  have dB: "distinct (xs @ m # ys)"
    using distinct_concat_nth [OF heap_inv_distinct [OF inv], of ind] i1 len split by simp
  have lB1: "dll (store h1) 0 bucket (xs @ m # ys)" using lB split st1 by simp
  from unlink_min_spec [OF lB1 dB] m(2) st1 obtain st' b' where u:
    "unlink_min m bucket h1 = Some ((node_value n, priority n), b',
        h1\<lparr>m_minimum := priority n, store := st'\<rparr>)"
    "lseg st' b' (xs @ ys) 0"
    "\<And>x. x \<notin> set (xs @ m # ys) \<Longrightarrow> st' x = store h x"
    "\<And>x. x \<noteq> m \<Longrightarrow> node_data st' x = node_data (store h) x"
    by auto
  define h2 where "h2 = h1\<lparr>m_minimum := priority n, store := st'\<rparr>"
  from heap_inv_index [OF inv i1(2) m(3)] m(2)
  have mi: "msbSet (priority n XOR m_minimum h) = ind" "m_minimum h \<le> priority n" by auto
  have other: "\<exists>j nx. ind < j \<and> j \<le> ?L \<and> x \<in> set (bs ! j) \<and> x \<notin> set (bs ! ind)
      \<and> deref (store h) x = Some nx
      \<and> msbSet (priority nx XOR m_minimum h) = j \<and> m_minimum h \<le> priority nx"
    if "k \<le> ?L" "x \<in> set (bs1 ! k)" for k x
  proof -
    have k: "k \<noteq> ind" "x \<in> set (bs ! k)"
      using that len i1 by (auto simp: bs1_def nth_list_update split: if_splits)
    then have "ind < k" using below by (metis empty_iff empty_set linorder_neqE_nat)
    moreover have "x \<notin> set (bs ! ind)"
      using distinct_concat_disjoint [OF heap_inv_distinct [OF inv], of k ind x] k that(1) i1 len
      by auto
    ultimately show ?thesis using heap_inv_index [OF inv that(1) k(2)] that(1) k(2) by blast
  qed
  have inv2: "heap_inv h2 bs1"
  proof (rule heap_invI)
    show "length (m_buckets h2) = ?L + 1" "length bs1 = ?L + 1"
      using len by (simp_all add: h2_def h1_def bs1_def)
    show "distinct (concat bs1)" using inv1 by (rule heap_inv_distinct)
    show "dll (store h2) 0 (m_buckets h2 ! k) (bs1 ! k)" if "k \<le> ?L" for k
    proof -
      have "dll st' 0 (m_buckets h1 ! k) (bs1 ! k) = dll (store h) 0 (m_buckets h1 ! k) (bs1 ! k)"
      proof (rule dll_cong)
        fix x assume "x \<in> set (bs1 ! k)"
        then have "x \<notin> set (xs @ m # ys)" using other [OF that] split by auto
        then show "deref st' x = deref (store h) x" using u(3) by (simp add: deref_def)
      qed
      then show ?thesis using heap_inv_dll [OF inv1 that] st1 by (simp add: h2_def)
    qed
    show "\<exists>nx. deref (store h2) x = Some nx \<and> msbSet (priority nx XOR m_minimum h2) = k
             \<and> m_minimum h2 \<le> priority nx" if k: "k \<le> ?L" and x: "x \<in> set (bs1 ! k)" for k x
    proof -
      from other [OF k x] obtain j nx where j: "ind < j" "j \<le> ?L" "x \<in> set (bs ! j)"
        "x \<notin> set (bs ! ind)" "deref (store h) x = Some nx"
        "msbSet (priority nx XOR m_minimum h) = j" "m_minimum h \<le> priority nx" by blast
      have "x \<in> set (bs ! k)" "k \<noteq> ind"
        using x len i1 by (auto simp: bs1_def nth_list_update split: if_splits)
      with heap_inv_index [OF inv k this(1)] j(5,6) have kj: "k = j" by auto
      have "st' x = store h x" using j(4) split by (intro u(3)) simp
      then have d: "deref (store h2) x = Some nx" using j(5) by (simp add: h2_def deref_Some_iff)
      have lt: "msbSet (priority n XOR m_minimum h) < msbSet (priority nx XOR m_minimum h)"
        using mi(1) j(1,6) by simp
      have "msbSet (priority nx XOR priority n) = j"
        using bucket_index_stable [OF lt] j(6) by simp
      moreover have "priority n < priority nx" using lt j(7) by (rule lower_bucket_less)
      ultimately show ?thesis using d kj by (simp add: h2_def)
    qed
    show "bit (m_bucketMask h2) (?L - k) \<longleftrightarrow> bs1 ! k \<noteq> []" if "1 \<le> k" "k \<le> ?L" for k
      using heap_inv_mask [OF inv1 that] by (simp add: h2_def)
  qed
  have l2: "lseg (store h2) b' (xs @ ys) 0" using u(2) by (simp add: h2_def)
  have drs: "distinct (xs @ ys)" using dB by auto
  have dis: "set (xs @ ys) \<inter> set (concat bs1) = {}"
  proof -
    have "x \<notin> set (xs @ ys)" if "x \<in> set (concat bs1)" for x
    proof -
      from that obtain k where "k < length bs1" "x \<in> set (bs1 ! k)"
        using in_concat_nth [of x bs1] by blast
      then have "k \<le> ?L" using len by (simp add: bs1_def)
      from other [OF this \<open>x \<in> set (bs1 ! k)\<close>] show ?thesis using split by auto
    qed
    then show ?thesis by blast
  qed
  have nd2: "node_data (store h2) x = node_data (store h) x" if "x \<noteq> m" for x
    using u(4) [OF that] by (simp add: h2_def)
  have ge: "\<exists>nx. deref (store h2) x = Some nx \<and> m_minimum h2 \<le> priority nx"
    if "x \<in> set (xs @ ys)" for x
  proof -
    have x: "x \<in> set (bs ! ind)" "x \<noteq> m" using that split dB by auto
    then obtain nx where nx: "deref (store h) x = Some nx" using dll_allocated [OF lB] by blast
    then have "priority n \<le> priority nx" using m(4) x(1) by blast
    moreover obtain nx' where "deref (store h2) x = Some nx'" "priority nx' = priority nx"
      using node_data_eq_deref [OF nd2 [OF x(2)] nx] by blast
    ultimately show ?thesis by (simp add: h2_def)
  qed
  from redistribute_inv [OF inv2 l2 drs dis ge] obtain h3 bs3 where r:
    "redistribute b' h2 = Some h3" "heap_inv h3 bs3" "m_size h3 = m_size h2"
    "m_minimum h3 = m_minimum h2" "\<And>x. node_data (store h3) x = node_data (store h2) x"
    "mset (concat bs3) = mset (concat bs1) + mset (xs @ ys)" by blast
  have "mset (concat bs1) + mset (bs ! ind) = mset (concat bs) + mset []"
    unfolding bs1_def using i1 len by (intro mset_concat_update) simp
  then have ms: "mset (concat bs) = add_mset m (mset (concat bs3))"
    using r(6) split by simp
  have fm: "find_min (store h1) bucket bucket = Some m" using m(1) st1 by simp
  have "m_size h3 = m_size h" "m_minimum h3 = priority n" "m_minimum h2 = priority n"
    using r(3,4) by (simp_all add: h2_def h1_def)
  then show ?thesis
    using tb i1 below split fm m(2) u(1) l2 nd2 r(1,2,5) ms mi(2) unfolding h2_def [symmetric]
    by blast
qed

section \<open>The heap as a multiset of payloads\<close>

lemma heap_inv_nonzero: "heap_inv h bs \<Longrightarrow> 0 \<notin> set (concat bs)"
  using heap_inv_allocated [of h bs 0] by auto

lemma heap_inv_count_bound:
  fixes h :: "('v, 'p::len, 's::len) RadixHeap"
  assumes "heap_inv h bs"
  shows "length (concat bs) < 2 ^ LENGTH('s)"
proof -
  have "set (concat bs) \<subseteq> UNIV - {0}" using heap_inv_nonzero [OF assms] by auto
  then have "card (set (concat bs)) \<le> card (UNIV - {0 :: 's word})"
    by (intro card_mono) simp_all
  also have "\<dots> = 2 ^ LENGTH('s) - 1" by (simp add: card_Diff_singleton card_word)
  also have "\<dots> < 2 ^ LENGTH('s)" by simp
  finally have "card (set (concat bs)) < 2 ^ LENGTH('s)" .
  then show ?thesis using distinct_card [OF heap_inv_distinct [OF assms]] by simp
qed

lemma heap_ok_size: 
  fixes h :: "('v, 'p::len, 's::len) RadixHeap"
  assumes "heap_ok h C"
  shows "unat (m_size h) = size C"
proof -
  from assms obtain bs where bs: "heap_inv h bs" "size_ok h bs" "contents h bs = C"
    by (auto simp: heap_ok_def)
  have "unat (m_size h) = length (concat bs)"
    using bs(2) heap_inv_count_bound [OF bs(1)] by (simp add: size_ok_def unat_of_nat)
  then show ?thesis using bs(3) by (auto simp: contents_def)
qed

lemma heap_ok_empty_iff: "heap_ok h C \<Longrightarrow> empty h \<longleftrightarrow> C = {#}"
  using heap_ok_size [of h C] by (auto simp: empty_def size_heap_def unat_eq_0)

lemma heap_ok_ge:
  assumes "heap_ok h C" "e \<in># C"
  shows "m_minimum h \<le> snd e"
proof -
  from assms(1) obtain bs where bs0: "heap_inv h bs" "contents h bs = C"
    by (auto simp: heap_ok_def)
  then have "e \<in> (\<lambda>a. the (node_data (store h) a)) ` set (concat bs)"
    using assms(2) unfolding contents_def by (metis in_image_mset set_mset_mset)
  then obtain a where a: "a \<in> set (concat bs)" "e = the (node_data (store h) a)" by blast
  note bs = bs0(1) a
  from heap_inv_member [OF bs(1,2)] show ?thesis using bs(3) by (auto simp: node_data_def)
qed

lemma init_inv:
  "heap_inv (RadixHeap_init st :: ('v, 'p::len, 's::len) RadixHeap) (replicate (LENGTH('p) + 1) [])"
  by (rule heap_invI) (simp_all add: RadixHeap_init_def less_Suc_eq_le del: replicate.simps)

lemma init_ok: "heap_ok (RadixHeap_init st) {#}"
  unfolding heap_ok_def
  by (intro exI conjI, rule init_inv) (simp_all add: size_ok_def contents_def RadixHeap_init_def)

lemma push_ok:
  fixes h :: "('v, 'p::len, 's::len) RadixHeap"
  assumes ok: "heap_ok h C" and a: "a \<noteq> 0" "store h a = None" and p: "m_minimum h \<le> p"
  shows "\<exists>h'. push a v p h = Some (a, h') \<and> heap_ok h' (add_mset (v, p) C)
           \<and> m_minimum h' = m_minimum h"
proof -
  from ok obtain bs where bs: "heap_inv h bs" "size_ok h bs" "contents h bs = C"
    by (auto simp: heap_ok_def)
  define i where "i = msbSet (p XOR m_minimum h)"
  have iL: "i < length bs" using heap_inv_length [OF bs(1)] msbSet_le_len [of "p XOR m_minimum h"]
    by (simp add: i_def less_Suc_eq_le)
  from push_inv [OF bs(1) a p i_def, of v] obtain h' where h':
    "push a v p h = Some (a, h')" "heap_inv h' (bs[i := a # bs ! i])"
    "m_size h' = m_size h + 1" "m_minimum h' = m_minimum h"
    "node_data (store h') a = Some (v, p)"
    "\<And>x. x \<noteq> a \<Longrightarrow> node_data (store h') x = node_data (store h) x" by blast
  have notin: "a \<notin> set (concat bs)" using heap_inv_allocated [OF bs(1), of a] a(2) by auto
  have "size_ok h' (bs[i := a # bs ! i])"
    using bs(2) h'(3) arg_cong [OF mset_concat_update_cons [OF iL, of a], of size]
    by (simp add: size_ok_def)
  moreover have "contents h' (bs[i := a # bs ! i]) = add_mset (v, p) C"
  proof -
    have "image_mset (\<lambda>x. the (node_data (store h') x)) (mset (concat bs))
        = image_mset (\<lambda>x. the (node_data (store h) x)) (mset (concat bs))"
    proof (rule image_mset_cong)
      fix x assume "x \<in># mset (concat bs)"
      then have "x \<noteq> a" using notin by auto
      then show "the (node_data (store h') x) = the (node_data (store h) x)"
        using h'(6) [of x] by simp
    qed
    then show ?thesis
      using bs(3) h'(5) by (simp add: contents_def mset_concat_update_cons [OF iL])
  qed
  ultimately show ?thesis using h'(1,2,4) by (auto simp: heap_ok_def)
qed

subsection \<open>pop\<close>

lemma pop_node_inv:
  fixes h :: "('v, 'p::len, 's::len) RadixHeap"
  assumes inv: "heap_inv h bs" and ne: "concat bs \<noteq> []"
  shows "\<exists>e h' bs' a. pop_node h = Some (e, h') \<and> heap_inv h' bs'
           \<and> node_data (store h) a = Some e
           \<and> mset (concat bs) = add_mset a (mset (concat bs'))
           \<and> (\<forall>x. x \<noteq> a \<longrightarrow> node_data (store h') x = node_data (store h) x)
           \<and> m_size h' = m_size h - 1 \<and> m_minimum h' = snd e \<and> m_minimum h \<le> snd e"
proof -
  let ?L = "LENGTH('p)"
  let ?h = "h\<lparr>m_size := m_size h - 1\<rparr>"
  have inv0: "heap_inv ?h bs" using inv by simp
  have len: "length (m_buckets h) = ?L + 1" "length bs = ?L + 1"
    using heap_inv_length [OF inv] by simp_all
  have at: "bucket_at ?h 0 = Some (m_buckets h ! 0)" using len by (simp add: bucket_at_def)
  show ?thesis
  proof (cases "m_buckets h ! 0 = 0")
    case False
    have nz: "m_buckets ?h ! 0 \<noteq> 0" using False by simp
    from pop_front_inv [OF inv0 refl nz] obtain n0 rest st' where f:
      "bs ! 0 = m_buckets h ! 0 # rest" "deref (store h) (m_buckets h ! 0) = Some n0"
      "priority n0 = m_minimum h"
      "pop_front (m_buckets h ! 0) ?h = Some ((node_value n0, priority n0),
          ?h\<lparr>m_buckets := (m_buckets ?h)[0 := node_next n0], store := st'\<rparr>)"
      "heap_inv (?h\<lparr>m_buckets := (m_buckets ?h)[0 := node_next n0], store := st'\<rparr>) (bs[0 := rest])"
      "\<And>x. node_data st' x = node_data (store h) x"
      by auto
    let ?h' = "?h\<lparr>m_buckets := (m_buckets ?h)[0 := node_next n0], store := st'\<rparr>"
    have "pop_node h = Some ((node_value n0, priority n0), ?h')"
      using at False f(4) by (simp add: pop_node_def Let_def)
    moreover have "node_data (store h) (m_buckets h ! 0) = Some (node_value n0, priority n0)"
      using f(2) by (simp add: node_data_def)
    moreover have "mset (concat bs) = add_mset (m_buckets h ! 0) (mset (concat (bs[0 := rest])))"
      using mset_concat_update [of 0 bs rest] len f(1) by simp
    ultimately show ?thesis using f(3,5,6) by (intro exI [of _ "(node_value n0, priority n0)"] exI [of _ ?h'] exI [of _ "bs[0 := rest]"] exI [of _ "m_buckets h ! 0"]) simp
  next
    case True
    then have e0: "bs ! 0 = []" using heap_inv_empty_bucket [OF inv, of 0] by simp
    from pop_slow_inv [OF inv0 e0 ne]
    obtain ind bucket h1 m n b' h2 h3 bs3 where s:
      "take_bucket ?h = Some (ind, bucket, h1)"
      "find_min (store h1) bucket bucket = Some m"
      "deref (store h) m = Some n"
      "unlink_min m bucket h1 = Some ((node_value n, priority n), b', h2)"
      "\<And>x. x \<noteq> m \<Longrightarrow> node_data (store h2) x = node_data (store h) x"
      "redistribute b' h2 = Some h3"
      "heap_inv h3 bs3"
      "mset (concat bs) = add_mset m (mset (concat bs3))"
      "m_size h3 = m_size h - 1" "m_minimum h3 = priority n" "m_minimum h \<le> priority n"
      "\<And>x. node_data (store h3) x = node_data (store h2) x"
      by auto
    have "pop_node h = Some ((node_value n, priority n), h3)"
      using at True s(1,2,4,6) by (simp add: pop_node_def Let_def)
    moreover have "node_data (store h) m = Some (node_value n, priority n)"
      using s(3) by (simp add: node_data_def)
    moreover have "node_data (store h3) x = node_data (store h) x" if "x \<noteq> m" for x
      using s(5) [OF that] s(12) [of x] by simp
    ultimately show ?thesis using s(7,8,9,10,11)
      by (intro exI [of _ "(node_value n, priority n)"] exI [of _ h3] exI [of _ bs3] exI [of _ m]) simp
  qed
qed

lemma pop_ok:
  fixes h :: "('v, 'p::len, 's::len) RadixHeap"
  assumes ok: "heap_ok h C" and ne: "\<not> empty h"
  shows "\<exists>e h'. pop_node h = Some (e, h') \<and> e \<in># C \<and> heap_ok h' (C - {#e#})
           \<and> m_minimum h' = snd e \<and> m_minimum h \<le> snd e"
proof -
  from ok obtain bs where bs: "heap_inv h bs" "size_ok h bs" "contents h bs = C"
    by (auto simp: heap_ok_def)
  have "C \<noteq> {#}" using heap_ok_empty_iff [OF ok] ne by simp
  then have nil: "concat bs \<noteq> []" using bs(3) by (auto simp: contents_def)
  from pop_node_inv [OF bs(1) nil] obtain e h' bs' a where p:
    "pop_node h = Some (e, h')" "heap_inv h' bs'" "node_data (store h) a = Some e"
    "mset (concat bs) = add_mset a (mset (concat bs'))"
    "\<And>x. x \<noteq> a \<Longrightarrow> node_data (store h') x = node_data (store h) x"
    "m_size h' = m_size h - 1" "m_minimum h' = snd e" "m_minimum h \<le> snd e" by blast
  have dc: "distinct (concat bs)" using bs(1) by (rule heap_inv_distinct)
  have "mset (concat bs) = mset (a # concat bs')" using p(4) by simp
  from mset_eq_imp_distinct_iff [OF this] dc have "distinct (a # concat bs')" by blast
  then have notin: "a \<notin> set (concat bs')" by simp
  have same: "image_mset (\<lambda>x. the (node_data (store h') x)) (mset (concat bs'))
      = image_mset (\<lambda>x. the (node_data (store h) x)) (mset (concat bs'))"
  proof (rule image_mset_cong)
    fix x assume "x \<in># mset (concat bs')"
    then have "x \<noteq> a" using notin by auto
    then show "the (node_data (store h') x) = the (node_data (store h) x)"
      using p(5) [of x] by simp
  qed
  have C: "C = add_mset e (contents h' bs')"
    using bs(3) p(3) same unfolding contents_def p(4) by simp
  have "length (concat bs) = Suc (length (concat bs'))"
    using arg_cong [OF p(4), of size] by simp
  then have "size_ok h' bs'" using bs(2) p(6) by (simp add: size_ok_def)
  then have "heap_ok h' (C - {#e#})" using p(2) C by (auto simp: heap_ok_def)
  then show ?thesis using p(1,7,8) C by auto
qed

section \<open>Sequences of calls\<close>

lemma exec_append:
  "exec (ops1 @ ops2) h =
     do { (t1, h1) \<leftarrow> exec ops1 h; (t2, h2) \<leftarrow> exec ops2 h1; Some (t1 @ t2, h2) }"
proof (induction ops1 arbitrary: h)
  case Nil
  show ?case by (cases "exec ops2 h") auto
next
  case (Cons opn ops1)
  show ?case
  proof (cases "step opn h")
    case None
    then show ?thesis by simp
  next
    case (Some r)
    obtain o1 h1 where r: "r = (o1, h1)" by (cases r)
    show ?thesis
    proof (cases "exec ops1 h1")
      case None
      then show ?thesis using Some r Cons.IH [of h1] by simp
    next
      case (Some r1)
      obtain t1 h2 where r1: "r1 = (t1, h2)" by (cases r1)
      show ?thesis
        using \<open>step opn h = Some r\<close> r Some r1 Cons.IH [of h1]
        by (cases "exec ops2 h2") auto
    qed
  qed
qed

lemma respecting_append:
  "respecting (ops1 @ ops2) h \<Longrightarrow> exec ops1 h = Some (t1, h1) \<Longrightarrow>
     respecting ops1 h \<and> respecting ops2 h1"
proof (induction ops1 arbitrary: h t1)
  case Nil
  then show ?case by simp
next
  case (Cons opn ops1)
  from Cons.prems(2) obtain o1 h' t' where s: "step opn h = Some (o1, h')"
    "exec ops1 h' = Some (t', h1)"
    by (auto split: Option.bind_splits)
  then have "respecting (ops1 @ ops2) h'" using Cons.prems(1) by simp
  from Cons.IH [OF this s(2)] show ?case using Cons.prems(1) s(1) by simp
qed

lemma size_pushed: "length (pushed ops) = n_push ops"
  by (induction ops rule: pushed.induct) simp_all

lemma exec_ok:
  assumes "heap_ok h C" "respecting ops h"
  shows "\<exists>tr h'. exec ops h = Some (tr, h')
           \<and> heap_ok h' (C + mset (pushed ops) - mset tr)
           \<and> mset tr \<subseteq># C + mset (pushed ops)
           \<and> sorted (map snd tr) \<and> (\<forall>e\<in>set tr. m_minimum h \<le> snd e)
           \<and> m_minimum h \<le> m_minimum h' \<and> length tr = n_pop ops"
  using assms
proof (induction ops arbitrary: h C)
  case Nil
  then show ?case by simp
next
  case (Cons opn ops)
  show ?case
  proof (cases opn)
    case (Push a v p)
    from Cons.prems(2) Push have pre: "a \<noteq> 0" "store h a = None" "m_minimum h \<le> p" by simp_all
    from push_ok [OF Cons.prems(1) pre, of v] obtain h1 where h1:
      "push a v p h = Some (a, h1)" "heap_ok h1 (add_mset (v, p) C)" "m_minimum h1 = m_minimum h"
      by blast
    then have "respecting ops h1" using Cons.prems(2) Push by simp
    from Cons.IH [OF h1(2) this] obtain tr h' where t:
      "exec ops h1 = Some (tr, h')"
      "heap_ok h' (add_mset (v, p) C + mset (pushed ops) - mset tr)"
      "mset tr \<subseteq># add_mset (v, p) C + mset (pushed ops)"
      "sorted (map snd tr)" "\<forall>e\<in>set tr. m_minimum h1 \<le> snd e"
      "m_minimum h1 \<le> m_minimum h'" "length tr = n_pop ops" by blast
    have "exec (opn # ops) h = Some (tr, h')" using Push h1(1) t(1) by simp
    then show ?thesis using t h1(3) Push by simp
  next
    case Pop
    from Cons.prems(2) Pop have pre: "\<not> empty h" by simp
    from pop_ok [OF Cons.prems(1) pre] obtain e h1 where h1:
      "pop_node h = Some (e, h1)" "e \<in># C" "heap_ok h1 (C - {#e#})"
      "m_minimum h1 = snd e" "m_minimum h \<le> snd e" by blast
    then have "respecting ops h1" using Cons.prems(2) Pop by simp
    from Cons.IH [OF h1(3) this] obtain tr h' where t:
      "exec ops h1 = Some (tr, h')"
      "heap_ok h' (C - {#e#} + mset (pushed ops) - mset tr)"
      "mset tr \<subseteq># C - {#e#} + mset (pushed ops)"
      "sorted (map snd tr)" "\<forall>e\<in>set tr. m_minimum h1 \<le> snd e"
      "m_minimum h1 \<le> m_minimum h'" "length tr = n_pop ops" by blast
    have ex: "exec (opn # ops) h = Some (e # tr, h')" using Pop h1(1) t(1) by simp
    have eq: "C - {#e#} + mset (pushed ops) - mset tr = C + mset (pushed ops) - mset (e # tr)"
      using h1(2) by (simp add: multiset_eq_iff) 
    have sub: "mset (e # tr) \<subseteq># C + mset (pushed ops)"
      using h1(2) t(3) by (metis add_mset_add_single insert_DiffM mset.simps(2) mset_subset_eq_add_mset_cancel union_mset_add_mset_left)
    have "sorted (map snd (e # tr))" using t(4,5) h1(4) by simp
    moreover have "\<forall>x\<in>set (e # tr). m_minimum h \<le> snd x"
      using t(5) h1(4,5) by auto
    moreover have "m_minimum h \<le> m_minimum h'" using t(6) h1(4,5) by simp
    ultimately show ?thesis using ex t(2,7) eq sub Pop by simp
  qed
qed

subsection \<open>Draining\<close>

lemma drain_ok:
  assumes "heap_ok h C"
  shows "\<exists>es. drain h = Some es \<and> mset es = C \<and> sorted (map snd es)
           \<and> (\<forall>e\<in>set es. m_minimum h \<le> snd e)"
  using assms
proof (induction "size C" arbitrary: h C)
  case 0
  then have "empty h" using heap_ok_empty_iff [of h C] by simp
  then have "drain h = Some []" by (subst drain.simps) simp
  then show ?case using 0 by simp
next
  case (Suc k)
  then have ne: "\<not> empty h" using heap_ok_empty_iff [of h C] by auto
  from pop_ok [OF Suc.prems ne] obtain e h1 where h1:
    "pop_node h = Some (e, h1)" "e \<in># C" "heap_ok h1 (C - {#e#})"
    "m_minimum h1 = snd e" "m_minimum h \<le> snd e" by blast
  have "k = size (C - {#e#})" using Suc.hyps(2) h1(2) by (simp add: size_Diff_singleton)
  from Suc.hyps(1) [OF this h1(3)] obtain es where es:
    "drain h1 = Some es" "mset es = C - {#e#}" "sorted (map snd es)"
    "\<forall>x\<in>set es. m_minimum h1 \<le> snd x" by blast
  have "drain h = Some (e # es)" using ne h1(1) es(1) by (subst drain.simps) simp
  moreover have "mset (e # es) = C" using es(2) h1(2) by simp
  moreover have "sorted (map snd (e # es))" using es(3,4) h1(4) by simp
  moreover have "\<forall>x\<in>set (e # es). m_minimum h \<le> snd x" using es(4) h1(4,5) by auto
  ultimately show ?case by blast
qed

section \<open>Reachable states\<close>

lemma reachable_inv:
  assumes "respecting ops (RadixHeap_init st)"
  shows "\<exists>tr h bs. exec ops (RadixHeap_init st) = Some (tr, h) \<and> heap_inv h bs \<and> size_ok h bs"
  using exec_ok [OF init_ok assms] unfolding heap_ok_def by blast

lemma nonempty_buckets:
  assumes "heap_inv h bs" "size_ok h bs" "\<not> empty h"
  shows "concat bs \<noteq> []"
proof -
  have "heap_ok h (contents h bs)" using assms(1,2) by (auto simp: heap_ok_def)
  from heap_ok_empty_iff [OF this] assms(3) show ?thesis by (auto simp: contents_def)
qed

lemma heap_inv_nodes_from:
  fixes h :: "('v, 'p::len, 's::len) RadixHeap"
  assumes "heap_inv h bs" "i \<le> LENGTH('p)"
  shows "nodes_from (store h) (m_buckets h ! i) = Some (bs ! i)"
  using heap_inv_dll [OF assms] by (intro nodes_from_lseg dll_lseg)

lemma heap_inv_bucket_nodes:
  fixes h :: "('v, 'p::len, 's::len) RadixHeap"
  assumes "heap_inv h bs" "i \<le> LENGTH('p)"
  shows "bucket_nodes h i = Some (bs ! i)"
  using heap_inv_nodes_from [OF assms] heap_inv_length [OF assms(1)] assms(2)
  by (simp add: bucket_nodes_def bucket_at_def)

lemma heap_inv_live_buckets:
  fixes h :: "('v, 'p::len, 's::len) RadixHeap"
  assumes "heap_inv h bs"
  shows "live_buckets h = Some bs"
proof -
  let ?L = "LENGTH('p)"
  have len: "length (m_buckets h) = ?L + 1" "length bs = ?L + 1"
    using heap_inv_length [OF assms] by simp_all
  have nf: "nodes_from (store h) (m_buckets h ! i) = Some (bs ! i)" if "i < length (m_buckets h)" for i
    using that len by (intro heap_inv_nodes_from [OF assms]) simp
  have "nodes_from (store h) b \<noteq> None" if "b \<in> set (m_buckets h)" for b
    using that nf by (auto simp: in_set_conv_nth)
  then have all: "list_all (\<lambda>b. nodes_from (store h) b \<noteq> None) (m_buckets h)"
    by (simp add: list_all_iff)
  have "map (\<lambda>b. the (nodes_from (store h) b)) (m_buckets h) = bs"
    using len nf by (intro nth_equalityI) simp_all
  then show ?thesis using all by (simp add: live_buckets_def)
qed

lemma heap_inv_bucket_invariant:
  fixes h :: "('v, 'p::len, 's::len) RadixHeap"
  assumes "heap_inv h bs"
  shows "bucket_invariant h"
proof -
  let ?L = "LENGTH('p)"
  have len: "length bs = ?L + 1" using heap_inv_length [OF assms] by simp
  have "node_index_ok h i a" if "i < length bs" "a \<in> set (bs ! i)" for i a
  proof -
    have "i \<le> ?L" using that(1) len by simp
    from heap_inv_index [OF assms this that(2)] obtain n where n: "deref (store h) a = Some n"
      "msbSet (priority n XOR m_minimum h) = i" by blast
    have "priority n = m_minimum h \<longleftrightarrow> i = 0"
      using n(2) xor_eq_0_iff [of "priority n" "m_minimum h"] by auto
    then show ?thesis using n by (simp add: node_index_ok_def)
  qed
  then have "list_all (\<lambda>i. list_all (node_index_ok h i) (bs ! i)) [0..<length bs]"
    by (simp add: list_all_iff)
  then show ?thesis
    using heap_inv_live_buckets [OF assms] len heap_inv_distinct [OF assms]
    by (simp add: bucket_invariant_def)
qed

lemma heap_inv_mask_invariant:
  fixes h :: "('v, 'p::len, 's::len) RadixHeap"
  assumes "heap_inv h bs"
  shows "mask_invariant h"
proof -
  have "bit (m_bucketMask h) (LENGTH('p) - i) = (m_buckets h ! i \<noteq> 0)"
    if "1 \<le> i" "i \<le> LENGTH('p)" for i
    using heap_inv_mask [OF assms that] heap_inv_empty_bucket [OF assms that(2)] by simp
  then show ?thesis unfolding mask_invariant_def list_all_iff by auto
qed

lemma only_pushes_n_pop: "only_pushes ops \<Longrightarrow> n_pop ops = 0"
  by (induction ops rule: only_pushes.induct) simp_all

section \<open>Ties at the minimum\<close>

lemma respecting_appendI:
  "respecting ops1 h \<Longrightarrow> exec ops1 h = Some (t1, h1) \<Longrightarrow> respecting ops2 h1 \<Longrightarrow>
     respecting (ops1 @ ops2) h"
proof (induction ops1 arbitrary: h t1)
  case Nil
  then show ?case by simp
next
  case (Cons opn ops1)
  from Cons.prems(2) obtain o1 h' t' where s: "step opn h = Some (o1, h')"
    "exec ops1 h' = Some (t', h1)"
    by (auto split: Option.bind_splits)
  then have "respecting ops1 h'" using Cons.prems(1) by simp
  from Cons.IH [OF this s(2) Cons.prems(3)] show ?case using Cons.prems(1) s(1) by simp
qed

lemma nonempty_heap:
  assumes "heap_inv h bs" "size_ok h bs" "concat bs \<noteq> []"
  shows "\<not> empty h"
proof -
  have "heap_ok h (contents h bs)" using assms(1,2) by (auto simp: heap_ok_def)
  from heap_ok_empty_iff [OF this] assms(3) show ?thesis by (auto simp: contents_def)
qed

lemma lifo_run:
  fixes h :: "('v, 'p::len, 's::len) RadixHeap"
  assumes "heap_inv h bs" "size_ok h bs" "distinct (map fst avs)"
    and "\<forall>a\<in>set (map fst avs). a \<noteq> 0 \<and> store h a = None"
  shows "\<exists>h'. exec (pushes_at (m_minimum h) avs @ replicate (length avs) Pop) h
               = Some (rev (map (\<lambda>(a, v). (v, m_minimum h)) avs), h')
           \<and> respecting (pushes_at (m_minimum h) avs @ replicate (length avs) Pop) h
           \<and> heap_inv h' bs \<and> size_ok h' bs \<and> m_minimum h' = m_minimum h
           \<and> (\<forall>x. node_data (store h) x \<noteq> None \<longrightarrow> node_data (store h') x = node_data (store h) x)
           \<and> (\<forall>x. x \<notin> fst ` set avs \<longrightarrow> store h x = None \<longrightarrow> store h' x = None)"
  using assms
proof (induction avs arbitrary: h bs)
  case Nil
  then show ?case by (simp add: pushes_at_def)
next
  case (Cons av avs)
  obtain a v where av: "av = (a, v)" by (cases av)
  let ?L = "LENGTH('p)"
  let ?m = "m_minimum h"
  let ?mid = "pushes_at ?m avs @ replicate (length avs) Pop"
  have len: "length (m_buckets h) = ?L + 1" "length bs = ?L + 1"
    using heap_inv_length [OF Cons.prems(1)] by simp_all
  have fr: "a \<noteq> 0" "store h a = None" using Cons.prems(4) av by simp_all
  have i0: "0 = msbSet (?m XOR ?m)" by simp
  let ?bs1 = "bs[0 := a # bs ! 0]"
  from push_inv [OF Cons.prems(1) fr _ i0, of v] obtain h1 where h1:
    "push a v ?m h = Some (a, h1)" "heap_inv h1 ?bs1" "m_size h1 = m_size h + 1"
    "m_minimum h1 = ?m" "node_data (store h1) a = Some (v, ?m)"
    "\<And>x. x \<noteq> a \<Longrightarrow> node_data (store h1) x = node_data (store h) x"
    "\<And>x. x \<noteq> a \<Longrightarrow> store h x = None \<Longrightarrow> store h1 x = None"
    by auto
  have l1: "length (concat ?bs1) = Suc (length (concat bs))"
    using arg_cong [OF mset_concat_update_cons [of 0 bs a], of size] len by simp
  have so1: "size_ok h1 ?bs1" using Cons.prems(2) h1(3) l1 by (simp add: size_ok_def)
  have d': "distinct (map fst avs)" using Cons.prems(3) by simp
  have fr': "\<forall>x\<in>set (map fst avs). x \<noteq> 0 \<and> store h1 x = None"
  proof
    fix x assume x: "x \<in> set (map fst avs)"
    then have "x \<noteq> a" using Cons.prems(3) av by auto
    moreover have "x \<noteq> 0" "store h x = None" using Cons.prems(4) x by auto
    ultimately show "x \<noteq> 0 \<and> store h1 x = None" using h1(7) by simp
  qed
  from Cons.IH [OF h1(2) so1 d' fr'] h1(4) obtain h2 where h2:
    "exec ?mid h1 = Some (rev (map (\<lambda>(a, v). (v, ?m)) avs), h2)"
    "respecting ?mid h1" "heap_inv h2 ?bs1" "size_ok h2 ?bs1" "m_minimum h2 = ?m"
    "\<And>x. node_data (store h1) x \<noteq> None \<Longrightarrow> node_data (store h2) x = node_data (store h1) x"
    "\<And>x. x \<notin> fst ` set avs \<Longrightarrow> store h1 x = None \<Longrightarrow> store h2 x = None"
    by auto
  let ?h2 = "h2\<lparr>m_size := m_size h2 - 1\<rparr>"
  have inv2: "heap_inv ?h2 ?bs1" using h2(3) by simp
  have b1: "?bs1 ! 0 = a # bs ! 0" using len by simp
  then have nz: "m_buckets ?h2 ! 0 \<noteq> 0" using heap_inv_empty_bucket [OF h2(3), of 0] by simp
  from pop_front_inv [OF inv2 refl nz] b1 obtain n0 st' where f:
    "m_buckets h2 ! 0 = a" "deref (store h2) a = Some n0"
    "pop_front a ?h2 = Some ((node_value n0, priority n0),
        ?h2\<lparr>m_buckets := (m_buckets ?h2)[0 := node_next n0], store := st'\<rparr>)"
    "heap_inv (?h2\<lparr>m_buckets := (m_buckets ?h2)[0 := node_next n0], store := st'\<rparr>)
        (?bs1[0 := bs ! 0])"
    "\<And>x. node_data st' x = node_data (store h2) x"
    "\<And>x. store h2 x = None \<Longrightarrow> st' x = None"
    by auto
  define h3 where "h3 = ?h2\<lparr>m_buckets := (m_buckets ?h2)[0 := node_next n0], store := st'\<rparr>"
  have "node_data (store h2) a = Some (v, ?m)" using h2(6) [of a] h1(5) by simp
  then have n0: "node_value n0 = v" "priority n0 = ?m" using f(2) by (simp_all add: node_data_def)
  have len2: "length (m_buckets h2) = ?L + 1" using heap_inv_length [OF h2(3)] by simp
  have at: "bucket_at ?h2 0 = Some a" using f(1) len2 by (simp add: bucket_at_def)
  have pn: "pop_node h2 = Some ((v, ?m), h3)"
    using at fr(1) f(3) n0 by (simp add: pop_node_def Let_def h3_def)
  have inv3: "heap_inv h3 bs" using f(4) by (simp add: h3_def)
  have so3: "size_ok h3 bs" using h2(4) l1 by (simp add: size_ok_def h3_def)
  have "concat ?bs1 \<noteq> []" using l1 by (metis length_0_conv nat.distinct(1))
  with h2(3,4) have ne2: "\<not> empty h2" by (rule nonempty_heap)
  have ex_mid: "exec (?mid @ [Pop]) h1 = Some (rev (map (\<lambda>(a, v). (v, ?m)) avs) @ [(v, ?m)], h3)"
    by (subst exec_append) (use h2(1) pn in simp)
  have "respecting [Pop] h2" using ne2 pn by simp
  with h2(2) h2(1) have re_mid: "respecting (?mid @ [Pop]) h1" by (rule respecting_appendI)
  have ops: "pushes_at ?m (av # avs) @ replicate (length (av # avs)) Pop
      = Push a v ?m # (?mid @ [Pop])"
    by (simp add: pushes_at_def av replicate_append_same)
  have "exec (pushes_at ?m (av # avs) @ replicate (length (av # avs)) Pop) h
      = Some (rev (map (\<lambda>(a, v). (v, ?m)) (av # avs)), h3)"
    unfolding ops using h1(1) ex_mid av by simp
  moreover have "respecting (pushes_at ?m (av # avs) @ replicate (length (av # avs)) Pop) h"
    unfolding ops using fr h1(1) re_mid by simp
  moreover have "node_data (store h3) x = node_data (store h) x"
    if "node_data (store h) x \<noteq> None" for x
  proof -
    have "x \<noteq> a" using that fr(2) by (auto simp: node_data_def deref_def split: if_splits)
    then have "node_data (store h1) x = node_data (store h) x" by (rule h1(6))
    then show ?thesis using h2(6) [of x] f(5) [of x] that by (simp add: h3_def)
  qed
  moreover have "store h3 x = None" if "x \<notin> fst ` set (av # avs)" "store h x = None" for x
    using that av h1(7) [of x] h2(7) [of x] f(6) [of x] by (simp add: h3_def)
  moreover have "m_minimum h3 = ?m" using h2(5) by (simp add: h3_def)
  ultimately show ?case using inv3 so3 by blast
qed

section \<open>Single calls on the multiset of payloads\<close>

lemma step_push_ok:
  assumes "heap_ok h C" "allocation_fresh (Push a v p) h" "m_minimum h \<le> p"
  shows "precondition (Push a v p) h
         \<and> (\<exists>h'. step (Push a v p) h = Some ([], h') \<and> heap_ok h' (add_mset (v, p) C)
               \<and> m_minimum h' = m_minimum h)"
proof -
  have fr: "a \<noteq> 0" "store h a = None" using assms(2) by simp_all
  from push_ok [OF assms(1) fr assms(3), of v] show ?thesis using fr assms(3) by auto
qed

lemma step_pop_ok:
  assumes "heap_ok h C" "C \<noteq> {#}"
  shows "precondition Pop h
         \<and> (\<exists>e h'. step Pop h = Some ([e], h') \<and> e \<in># C \<and> (\<forall>x. x \<in># C \<longrightarrow> snd e \<le> snd x)
               \<and> heap_ok h' (C - {#e#}) \<and> m_minimum h' = snd e)"
proof -
  have ne: "\<not> empty h" using heap_ok_empty_iff [OF assms(1)] assms(2) by simp
  from pop_ok [OF assms(1) ne] obtain e h' where p: "pop_node h = Some (e, h')" "e \<in># C"
    "heap_ok h' (C - {#e#})" "m_minimum h' = snd e" by blast
  have "snd e \<le> snd x" if "x \<in># C" for x
  proof (cases "x = e")
    case False
    then have "x \<in># C - {#e#}" using that by (simp add: in_diff_count)
    from heap_ok_ge [OF p(3) this] show ?thesis using p(4) by simp
  qed simp
  then show ?thesis using ne p by auto
qed

lemma small_numerals:
  assumes "4 \<le> LENGTH('p::len)"
  shows "unat (2 :: 'p word) = 2" "unat (5 :: 'p word) = 5" "unat (6 :: 'p word) = 6"
    "unat (8 :: 'p word) = 8"
proof -
  have "(2::nat) ^ 4 \<le> 2 ^ LENGTH('p)" using assms by (intro power_increasing) simp_all
  then have b: "(16::nat) \<le> 2 ^ LENGTH('p)" by simp
  have "unat (of_nat n :: 'p word) = n" if "n < 16" for n
    using that b by (simp add: unat_of_nat)
  from this [of 2] this [of 5] this [of 6] this [of 8]
  show "unat (2 :: 'p word) = 2" "unat (5 :: 'p word) = 5" "unat (6 :: 'p word) = 6"
    "unat (8 :: 'p word) = 8" by simp_all
qed


lemma ordered_run:
  fixes st :: "('v, 'p::len, 's::len) node_store" and pa pb pc pd :: "'p word"
  assumes ord: "pb \<le> pd" "\<not> pa \<le> pb" "\<not> pc \<le> pb" "\<not> pc \<le> pa" "\<not> pd \<le> pa" "\<not> pc \<le> pd"
    and al: "allocations_fresh
       [Push a va pa, Push b vb pb, Push c vc pc, Pop, Push d vd pd, Pop, Pop, Pop]
       (RadixHeap_init st)"
  shows "\<exists>h1 h2 h3 h4 h5 h6 h7 h8.
           step (Push a va pa) (RadixHeap_init st) = Some ([], h1)
           \<and> precondition (Push a va pa) (RadixHeap_init st)
           \<and> step (Push b vb pb) h1 = Some ([], h2) \<and> precondition (Push b vb pb) h1
           \<and> step (Push c vc pc) h2 = Some ([], h3) \<and> precondition (Push c vc pc) h2
           \<and> step Pop h3 = Some ([(vb, pb)], h4) \<and> precondition Pop h3 \<and> m_minimum h4 = pb
           \<and> step (Push d vd pd) h4 = Some ([], h5) \<and> precondition (Push d vd pd) h4
           \<and> step Pop h5 = Some ([(va, pa)], h6) \<and> precondition Pop h5 \<and> m_minimum h6 = pa
           \<and> step Pop h6 = Some ([(vd, pd)], h7) \<and> precondition Pop h6 \<and> m_minimum h7 = pd
           \<and> step Pop h7 = Some ([(vc, pc)], h8) \<and> precondition Pop h7 \<and> empty h8"
proof -
  let ?h0 = "RadixHeap_init st :: ('v, 'p, 's) RadixHeap"
  have m0: "m_minimum ?h0 = 0" by (simp add: RadixHeap_init_def)
  have a1: "allocation_fresh (Push a va pa) ?h0" using al by simp
  from step_push_ok [OF init_ok a1] m0 obtain h1 where s1:
    "step (Push a va pa) ?h0 = Some ([], h1)" "precondition (Push a va pa) ?h0"
    "heap_ok h1 {#(va, pa)#}" "m_minimum h1 = 0" by auto
  have al1: "allocations_fresh [Push b vb pb, Push c vc pc, Pop, Push d vd pd, Pop, Pop, Pop] h1"
    using al s1(1) by (simp del: step.simps)
  then have a2: "allocation_fresh (Push b vb pb) h1" by simp
  from step_push_ok [OF s1(3) a2] s1(4) obtain h2 where s2:
    "step (Push b vb pb) h1 = Some ([], h2)" "precondition (Push b vb pb) h1"
    "heap_ok h2 {#(vb, pb), (va, pa)#}" "m_minimum h2 = 0" by auto
  have al2: "allocations_fresh [Push c vc pc, Pop, Push d vd pd, Pop, Pop, Pop] h2"
    using al1 s2(1) by (simp del: step.simps)
  then have a3: "allocation_fresh (Push c vc pc) h2" by simp
  from step_push_ok [OF s2(3) a3] s2(4) obtain h3 where s3:
    "step (Push c vc pc) h2 = Some ([], h3)" "precondition (Push c vc pc) h2"
    "heap_ok h3 {#(vc, pc), (vb, pb), (va, pa)#}" by auto
  have al3: "allocations_fresh [Pop, Push d vd pd, Pop, Pop, Pop] h3"
    using al2 s3(1) by (simp del: step.simps)
  from step_pop_ok [OF s3(3)] obtain e4 h4 where p4: "precondition Pop h3"
    "step Pop h3 = Some ([e4], h4)" "e4 \<in># {#(vc, pc), (vb, pb), (va, pa)#}"
    "\<forall>x. x \<in># {#(vc, pc), (vb, pb), (va, pa)#} \<longrightarrow> snd e4 \<le> snd x"
    "heap_ok h4 ({#(vc, pc), (vb, pb), (va, pa)#} - {#e4#})" "m_minimum h4 = snd e4"
    by auto
  have "snd e4 \<le> pb" using p4(4) by simp
  then have e4: "e4 = (vb, pb)" using p4(3) ord by auto
  have ok4: "heap_ok h4 {#(vc, pc), (va, pa)#}" using p4(5) e4 by simp
  have al4: "allocations_fresh [Push d vd pd, Pop, Pop, Pop] h4"
    using al3 p4(2) by (simp del: step.simps)
  then have a5: "allocation_fresh (Push d vd pd) h4" by simp
  have "m_minimum h4 \<le> pd" using p4(6) e4 ord by simp
  from step_push_ok [OF ok4 a5 this] obtain h5 where s5:
    "step (Push d vd pd) h4 = Some ([], h5)" "precondition (Push d vd pd) h4"
    "heap_ok h5 {#(vd, pd), (vc, pc), (va, pa)#}" by auto
  from step_pop_ok [OF s5(3)] obtain e6 h6 where p6: "precondition Pop h5"
    "step Pop h5 = Some ([e6], h6)" "e6 \<in># {#(vd, pd), (vc, pc), (va, pa)#}"
    "\<forall>x. x \<in># {#(vd, pd), (vc, pc), (va, pa)#} \<longrightarrow> snd e6 \<le> snd x"
    "heap_ok h6 ({#(vd, pd), (vc, pc), (va, pa)#} - {#e6#})" "m_minimum h6 = snd e6"
    by auto
  have "snd e6 \<le> pa" using p6(4) by simp
  then have e6: "e6 = (va, pa)" using p6(3) ord by auto
  have ok6: "heap_ok h6 {#(vd, pd), (vc, pc)#}" using p6(5) e6 by simp
  from step_pop_ok [OF ok6] obtain e7 h7 where p7: "precondition Pop h6"
    "step Pop h6 = Some ([e7], h7)" "e7 \<in># {#(vd, pd), (vc, pc)#}"
    "\<forall>x. x \<in># {#(vd, pd), (vc, pc)#} \<longrightarrow> snd e7 \<le> snd x"
    "heap_ok h7 ({#(vd, pd), (vc, pc)#} - {#e7#})" "m_minimum h7 = snd e7"
    by auto
  have "snd e7 \<le> pd" using p7(4) by simp
  then have e7: "e7 = (vd, pd)" using p7(3) ord by auto
  have ok7: "heap_ok h7 {#(vc, pc)#}" using p7(5) e7 by simp
  from step_pop_ok [OF ok7] obtain e8 h8 where p8: "precondition Pop h7"
    "step Pop h7 = Some ([e8], h8)" "e8 \<in># {#(vc, pc)#}"
    "heap_ok h8 ({#(vc, pc)#} - {#e8#})"
    by auto
  have e8: "e8 = (vc, pc)" using p8(3) by simp
  then have "heap_ok h8 {#}" using p8(4) by simp
  then have e: "empty h8" using heap_ok_empty_iff by blast
  have r4: "step Pop h3 = Some ([(vb, pb)], h4)" "m_minimum h4 = pb"
    using p4(2,6) e4 by simp_all
  have r6: "step Pop h5 = Some ([(va, pa)], h6)" "m_minimum h6 = pa"
    using p6(2,6) e6 by simp_all
  have r7: "step Pop h6 = Some ([(vd, pd)], h7)" "m_minimum h7 = pd"
    using p7(2,6) e7 by simp_all
  have r8: "step Pop h7 = Some ([(vc, pc)], h8)" using p8(2) e8 by simp
  show ?thesis
    using s1(1,2) s2(1,2) s3(1,2) p4(1) r4 s5(1,2) p6(1) r6 p7(1) r7 p8(1) r8 e
    by blast
qed

lemma scenario_run:
  fixes st :: "(string, 'p::len, 's::len) node_store"
  assumes len: "4 \<le> LENGTH('p)"
    and al: "allocations_fresh (scenario a b c d) (RadixHeap_init st)"
  shows "\<exists>h1 h2 h3 h4 h5 h6 h7 h8.
           step (Push a ''a'' 5) (RadixHeap_init st) = Some ([], h1)
           \<and> precondition (Push a ''a'' 5) (RadixHeap_init st)
           \<and> step (Push b ''b'' 2) h1 = Some ([], h2) \<and> precondition (Push b ''b'' 2) h1
           \<and> step (Push c ''c'' 8) h2 = Some ([], h3) \<and> precondition (Push c ''c'' 8) h2
           \<and> step Pop h3 = Some ([(''b'', 2)], h4) \<and> precondition Pop h3 \<and> m_minimum h4 = 2
           \<and> step (Push d ''d'' 6) h4 = Some ([], h5) \<and> precondition (Push d ''d'' 6) h4
           \<and> step Pop h5 = Some ([(''a'', 5)], h6) \<and> precondition Pop h5 \<and> m_minimum h6 = 5
           \<and> step Pop h6 = Some ([(''d'', 6)], h7) \<and> precondition Pop h6 \<and> m_minimum h7 = 6
           \<and> step Pop h7 = Some ([(''c'', 8)], h8) \<and> precondition Pop h7 \<and> empty h8"
proof -
  note u = small_numerals [OF len]
  have ord: "(2 :: 'p word) \<le> 6" "\<not> (5 :: 'p word) \<le> 2" "\<not> (8 :: 'p word) \<le> 2"
    "\<not> (8 :: 'p word) \<le> 5" "\<not> (6 :: 'p word) \<le> 5" "\<not> (8 :: 'p word) \<le> 6"
    unfolding word_le_nat_alt u by simp_all
  show ?thesis by (rule ordered_run [OF ord al [unfolded scenario_def]])
qed

section \<open>The claims\<close>

text \<open>
  C1. For every sequence of calls from a freshly constructed heap that respects the
  preconditions, split at any point into \<open>ops1\<close> and \<open>ops2\<close>: all calls return; every popped
  (value, priority) pair is a pushed one; the priorities of the values returned by the
  successive pops are non-decreasing; and the minimum after \<open>ops1\<close> is at most the minimum
  at the end, so the minimum never decreases.
\<close>

theorem pops_nondecreasing:
  assumes "respecting (ops1 @ ops2) (RadixHeap_init st)"
  shows "\<exists>t1 h1 t2 h2. exec ops1 (RadixHeap_init st) = Some (t1, h1)
           \<and> exec ops2 h1 = Some (t2, h2)
           \<and> exec (ops1 @ ops2) (RadixHeap_init st) = Some (t1 @ t2, h2)
           \<and> mset (t1 @ t2) \<subseteq># mset (pushed (ops1 @ ops2))
           \<and> sorted (map snd (t1 @ t2))
           \<and> m_minimum h1 \<le> m_minimum h2"
proof -
  let ?h = "RadixHeap_init st"
  from exec_ok [OF init_ok assms] obtain tr h2 where a:
    "exec (ops1 @ ops2) ?h = Some (tr, h2)" "mset tr \<subseteq># mset (pushed (ops1 @ ops2))"
    "sorted (map snd tr)" by auto
  then obtain t1 h1 t2 where s: "exec ops1 ?h = Some (t1, h1)" "exec ops2 h1 = Some (t2, h2)"
    "tr = t1 @ t2"
    by (auto simp: exec_append split: Option.bind_splits)
  from respecting_append [OF assms s(1)] have r: "respecting ops1 ?h" "respecting ops2 h1"
    by simp_all
  from exec_ok [OF init_ok r(1)] s(1) obtain C1 where "heap_ok h1 C1" by auto
  from exec_ok [OF this r(2)] s(2) have "m_minimum h1 \<le> m_minimum h2" by auto
  then show ?thesis using a s by auto
qed

theorem pops_nondecreasing_witness:
  "respecting ([Push 16 ''a'' 5, Push 32 ''b'' 2, Push 48 ''c'' 8, Pop]
               @ [Push 32 ''d'' 6, Pop, Pop, Pop]) fresh_heap
   \<and> (\<exists>t1 h1 t2 h2.
         exec [Push 16 ''a'' 5, Push 32 ''b'' 2, Push 48 ''c'' 8, Pop] fresh_heap = Some (t1, h1)
         \<and> exec [Push 32 ''d'' 6, Pop, Pop, Pop] h1 = Some (t2, h2)
         \<and> sorted (map snd (t1 @ t2)) \<and> m_minimum h1 \<le> m_minimum h2)"
proof -
  have r: "respecting ([Push 16 ''a'' 5, Push 32 ''b'' 2, Push 48 ''c'' 8, Pop]
               @ [Push 32 ''d'' 6, Pop, Pop, Pop]) (RadixHeap_init Map.empty :: (string, 32, 64) RadixHeap)"
    by code_simp
  from pops_nondecreasing [OF r] r show ?thesis
    unfolding fresh_heap_def by blast
qed

text \<open>
  C2. For every sequence of pushes on a freshly constructed heap that respects the
  preconditions, all pushes return, and draining the heap by \<open>pop()\<close> until \<open>empty()\<close> ends
  and returns exactly the pushed (value, priority) pairs, each once, in order of
  non-decreasing priority; so the values returned are the multiset of the inserted values.
\<close>

theorem drain_returns_pushed_sorted:
  assumes "only_pushes ops" "respecting ops (RadixHeap_init st)"
  shows "\<exists>h es. exec ops (RadixHeap_init st) = Some ([], h) \<and> drain h = Some es
           \<and> mset es = mset (pushed ops)
           \<and> mset (map fst es) = mset (map fst (pushed ops))
           \<and> sorted (map snd es)"
proof -
  from exec_ok [OF init_ok assms(2)] obtain tr h where a:
    "exec ops (RadixHeap_init st) = Some (tr, h)"
    "heap_ok h ({#} + mset (pushed ops) - mset tr)" "length tr = n_pop ops" by blast
  have tr: "tr = []" using a(3) only_pushes_n_pop [OF assms(1)] by simp
  then have "heap_ok h (mset (pushed ops))" using a(2) by simp
  from drain_ok [OF this] obtain es where es: "drain h = Some es" "mset es = mset (pushed ops)"
    "sorted (map snd es)" by blast
  have "mset (map fst es) = mset (map fst (pushed ops))"
    using arg_cong [OF es(2), of "image_mset fst"] by simp
  then show ?thesis using a(1) tr es by blast
qed

theorem drain_returns_pushed_sorted_witness:
  "only_pushes [Push 16 ''a'' (5 :: 32 word), Push (32 :: 64 word) ''b'' 2, Push 48 ''c'' 8, Push 64 ''d'' 2]
   \<and> respecting [Push 16 ''a'' 5, Push 32 ''b'' 2, Push 48 ''c'' 8, Push 64 ''d'' 2] fresh_heap
   \<and> (\<exists>h es. exec [Push 16 ''a'' 5, Push 32 ''b'' 2, Push 48 ''c'' 8, Push 64 ''d'' 2] fresh_heap
               = Some ([], h)
         \<and> drain h = Some es
         \<and> mset es = {#(''a'', 5), (''b'', 2), (''c'', 8), (''d'', 2)#}
         \<and> sorted (map snd es))"
proof -
  let ?ops = "[Push 16 ''a'' 5, Push 32 ''b'' 2, Push 48 ''c'' 8, Push 64 ''d'' 2]
     :: (64 word, string, 32 word) operation list"
  have p: "only_pushes ?ops" by simp
  have r: "respecting ?ops (RadixHeap_init Map.empty :: (string, 32, 64) RadixHeap)"
    by code_simp
  from drain_returns_pushed_sorted [OF p r] p r show ?thesis
    unfolding fresh_heap_def by auto
qed

text \<open>
  C3. In every reachable state in which bucket 0 is empty and the heap is not, \<open>pop\<close> takes
  the branch that drains a bucket \<open>ind\<close> with \<open>0 < ind \<le> BITS\<close>, all its steps return, and every
  node that remains of the drained bucket after the node of least priority is unlinked
  is reinserted, by the rule of \<open>insert\<close> measured against the new minimum, into a bucket of
  index smaller than \<open>ind\<close>, where it is found after the \<open>pop\<close>.
\<close>

theorem redistribution_lowers_index:
  fixes st :: "('v, 'p::len, 's::len) node_store"
  assumes "respecting ops (RadixHeap_init st)"
  shows "\<exists>tr h. exec ops (RadixHeap_init st) = Some (tr, h)
           \<and> (bucket_at h 0 = Some 0 \<and> \<not> empty h \<longrightarrow>
                (\<exists>ind bucket h1 mn e b' h2 rest h3.
                   take_bucket (h\<lparr>m_size := m_size h - 1\<rparr>) = Some (ind, bucket, h1)
                   \<and> find_min (store h1) bucket bucket = Some mn
                   \<and> unlink_min mn bucket h1 = Some (e, b', h2)
                   \<and> nodes_from (store h2) b' = Some rest
                   \<and> redistribute b' h2 = Some h3
                   \<and> pop_node h = Some (e, h3)
                   \<and> 0 < ind \<and> ind \<le> LENGTH('p)
                   \<and> (\<exists>B. bucket_nodes h ind = Some B \<and> mset B = add_mset mn (mset rest))
                   \<and> (\<forall>a\<in>set rest. \<exists>n j as. deref (store h2) a = Some n
                          \<and> j = msbSet (priority n XOR m_minimum h2) \<and> j < ind
                          \<and> bucket_nodes h3 j = Some as \<and> a \<in> set as)))"
proof -
  let ?L = "LENGTH('p)"
  from reachable_inv [OF assms] obtain tr h bs where h:
    "exec ops (RadixHeap_init st) = Some (tr, h)" "heap_inv h bs" "size_ok h bs" by blast
  have "\<exists>ind bucket h1 mn e b' h2 rest h3.
          take_bucket (h\<lparr>m_size := m_size h - 1\<rparr>) = Some (ind, bucket, h1)
          \<and> find_min (store h1) bucket bucket = Some mn
          \<and> unlink_min mn bucket h1 = Some (e, b', h2)
          \<and> nodes_from (store h2) b' = Some rest
          \<and> redistribute b' h2 = Some h3
          \<and> pop_node h = Some (e, h3)
          \<and> 0 < ind \<and> ind \<le> ?L
          \<and> (\<exists>B. bucket_nodes h ind = Some B \<and> mset B = add_mset mn (mset rest))
          \<and> (\<forall>a\<in>set rest. \<exists>n j as. deref (store h2) a = Some n
                 \<and> j = msbSet (priority n XOR m_minimum h2) \<and> j < ind
                 \<and> bucket_nodes h3 j = Some as \<and> a \<in> set as)"
    if b0: "bucket_at h 0 = Some 0" and ne: "\<not> empty h"
  proof -
    let ?h = "h\<lparr>m_size := m_size h - 1\<rparr>"
    have inv0: "heap_inv ?h bs" using h(2) by simp
    have z: "m_buckets h ! 0 = 0" using b0 by (simp add: bucket_at_def split: if_splits)
    then have e0: "bs ! 0 = []" using heap_inv_empty_bucket [OF h(2), of 0] by simp
    have nil: "concat bs \<noteq> []" using h(2,3) ne by (rule nonempty_buckets)
    from pop_slow_inv [OF inv0 e0 nil]
    obtain ind bucket h1 m n b' h2 h3 bs3 xs ys where s:
      "take_bucket ?h = Some (ind, bucket, h1)" "1 \<le> ind" "ind \<le> ?L"
      "bs ! ind = xs @ m # ys"
      "find_min (store h1) bucket bucket = Some m"
      "deref (store h) m = Some n"
      "unlink_min m bucket h1 = Some ((node_value n, priority n), b', h2)"
      "lseg (store h2) b' (xs @ ys) 0"
      "m_minimum h2 = priority n"
      "\<And>x. x \<noteq> m \<Longrightarrow> node_data (store h2) x = node_data (store h) x"
      "redistribute b' h2 = Some h3"
      "heap_inv h3 bs3"
      "mset (concat bs) = add_mset m (mset (concat bs3))"
      "m_minimum h3 = priority n"
      "\<And>x. node_data (store h3) x = node_data (store h2) x"
      by auto
    have len: "length bs = ?L + 1" using heap_inv_length [OF h(2)] by simp
    have dB: "distinct (xs @ m # ys)"
      using distinct_concat_nth [OF heap_inv_distinct [OF h(2)], of ind] s(3,4) len by simp
    have mi: "msbSet (priority n XOR m_minimum h) = ind"
      using heap_inv_index [OF h(2) s(3), of m] s(4,6) by auto
    have at: "bucket_at ?h 0 = Some 0" using b0 by (auto simp: bucket_at_def split: if_splits)
    have pn: "pop_node h = Some ((node_value n, priority n), h3)"
      using at s(1,5,7,11) by (simp add: pop_node_def Let_def)
    have nf: "nodes_from (store h2) b' = Some (xs @ ys)" using s(8) by (rule nodes_from_lseg)
    have B: "bucket_nodes h ind = Some (xs @ m # ys)"
      using heap_inv_bucket_nodes [OF h(2) s(3)] s(4) by simp
    have each: "\<exists>na j as. deref (store h2) a = Some na
        \<and> j = msbSet (priority na XOR m_minimum h2) \<and> j < ind
        \<and> bucket_nodes h3 j = Some as \<and> a \<in> set as" if a: "a \<in> set (xs @ ys)" for a
    proof -
      have am: "a \<noteq> m" "a \<in> set (bs ! ind)" using a dB s(4) by auto
      from heap_inv_index [OF h(2) s(3) am(2)] obtain n0 where n0:
        "deref (store h) a = Some n0" "msbSet (priority n0 XOR m_minimum h) = ind" by blast
      from node_data_eq_deref [OF s(10) [OF am(1)] n0(1)] obtain n2 where n2:
        "deref (store h2) a = Some n2" "priority n2 = priority n0" by blast
      from node_data_eq_deref [OF s(15) n2(1)] obtain n3 where n3:
        "deref (store h3) a = Some n3" "priority n3 = priority n2" by blast
      have lt: "msbSet (priority n2 XOR m_minimum h2) < ind"
        using bucket_index_decreases [OF mi n0(2)] s(2,9) n2(2) by simp
      have "a \<in> set (concat bs)" using am(2) s(3) len in_concat_nth [of a bs] by auto
      then have "a \<in># add_mset m (mset (concat bs3))" using s(13) by (metis set_mset_mset)
      then have "a \<in> set (concat bs3)" using am(1) by simp
      from heap_inv_member [OF s(12) this] obtain i where i: "i \<le> ?L" "a \<in> set (bs3 ! i)"
        "msbSet (priority n3 XOR m_minimum h3) = i" using n3(1) by auto
      have "bucket_nodes h3 i = Some (bs3 ! i)" using s(12) i(1) by (rule heap_inv_bucket_nodes)
      moreover have "i = msbSet (priority n2 XOR m_minimum h2)" using i(3) n3(2) s(9,14) by simp
      ultimately show ?thesis using n2(1) lt i(2) by auto
    qed
    show ?thesis
      using s(1,2,3,5,7,11) pn nf B each
      by (intro exI [of _ ind] exI [of _ bucket] exI [of _ h1] exI [of _ m]
          exI [of _ "(node_value n, priority n)"] exI [of _ b'] exI [of _ h2]
          exI [of _ "xs @ ys"] exI [of _ h3]) auto
  qed
  then show ?thesis using h(1) by blast
qed


theorem redistribution_lowers_index_witness:
  "respecting [Push 16 ''a'' 5, Push 32 ''b'' 6, Push 48 ''c'' 7] fresh_heap
   \<and> (\<exists>tr h. exec [Push 16 ''a'' 5, Push 32 ''b'' 6, Push 48 ''c'' 7] fresh_heap = Some (tr, h)
        \<and> bucket_at h 0 = Some 0 \<and> \<not> empty h
        \<and> (\<exists>bucket h1 mn e b' h2 h3.
              take_bucket (h\<lparr>m_size := m_size h - 1\<rparr>) = Some (3, bucket, h1)
              \<and> find_min (store h1) bucket bucket = Some mn
              \<and> unlink_min mn bucket h1 = Some (e, b', h2)
              \<and> nodes_from (store h2) b' = Some [48, 32]
              \<and> redistribute b' h2 = Some h3
              \<and> bucket_nodes h 3 = Some [48, 32, 16]
              \<and> bucket_nodes h3 2 = Some [32, 48]))"
proof -
  let ?ops = "[Push 16 ''a'' 5, Push 32 ''b'' 6, Push 48 ''c'' 7]
     :: (64 word, string, 32 word) operation list"
  let ?h = "RadixHeap_init Map.empty :: (string, 32, 64) RadixHeap"
  have r: "respecting ?ops ?h" by code_simp
  have v0: "map_option (\<lambda>(tr, h). (bucket_at h 0, empty h, bucket_nodes h 3)) (exec ?ops ?h)
      = Some (Some 0, False, Some [48, 32, 16])" by code_simp
  have v: "do { (tr, h) \<leftarrow> exec ?ops ?h;
                (ind, bucket, h1) \<leftarrow> take_bucket (h\<lparr>m_size := m_size h - 1\<rparr>);
                mn \<leftarrow> find_min (store h1) bucket bucket;
                (e, b', h2) \<leftarrow> unlink_min mn bucket h1;
                h3 \<leftarrow> redistribute b' h2;
                Some (ind, nodes_from (store h2) b', bucket_nodes h3 2) }
      = Some (3, Some [48, 32], Some [32, 48])" by code_simp
  from redistribution_lowers_index [OF r] obtain tr h where t:
    "exec ?ops ?h = Some (tr, h)"
    "bucket_at h 0 = Some 0 \<and> \<not> empty h \<longrightarrow>
       (\<exists>ind bucket h1 mn e b' h2 rest h3.
          take_bucket (h\<lparr>m_size := m_size h - 1\<rparr>) = Some (ind, bucket, h1)
          \<and> find_min (store h1) bucket bucket = Some mn
          \<and> unlink_min mn bucket h1 = Some (e, b', h2)
          \<and> nodes_from (store h2) b' = Some rest
          \<and> redistribute b' h2 = Some h3)" by blast
  from v0 [unfolded t(1)] have c: "bucket_at h 0 = Some 0" "\<not> empty h" "bucket_nodes h 3 = Some [48, 32, 16]"
    by simp_all
  with t(2) obtain ind bucket h1 mn e b' h2 rest h3 where s:
    "take_bucket (h\<lparr>m_size := m_size h - 1\<rparr>) = Some (ind, bucket, h1)"
    "find_min (store h1) bucket bucket = Some mn"
    "unlink_min mn bucket h1 = Some (e, b', h2)"
    "nodes_from (store h2) b' = Some rest"
    "redistribute b' h2 = Some h3" by blast
  from v [unfolded t(1)] s have "ind = 3" "rest = [48, 32]" "bucket_nodes h3 2 = Some [32, 48]"
    by simp_all
  then show ?thesis using r t(1) c s unfolding fresh_heap_def by blast
qed

text \<open>
  C4. In every state reached from a freshly constructed heap by calls that respect the
  preconditions, the buckets are null-terminated lists, no node occurs in two buckets or
  twice in one, and the index of the bucket of every node is \<open>msbSet (priority XOR minimum)\<close>,
  which is 0 exactly for the nodes whose priority is the minimum.
\<close>

theorem bucket_index_invariant:
  assumes "respecting ops (RadixHeap_init st)"
  shows "\<exists>tr h. exec ops (RadixHeap_init st) = Some (tr, h) \<and> bucket_invariant h"
  using reachable_inv [OF assms] heap_inv_bucket_invariant by blast

theorem bucket_index_invariant_witness:
  "respecting [Push 16 ''a'' 5, Push 32 ''b'' 2, Push 48 ''c'' 8, Pop, Push 32 ''d'' 2] fresh_heap
   \<and> (\<exists>tr h. exec [Push 16 ''a'' 5, Push 32 ''b'' 2, Push 48 ''c'' 8, Pop, Push 32 ''d'' 2] fresh_heap
               = Some (tr, h)
        \<and> bucket_invariant h
        \<and> m_minimum h = 2
        \<and> live_buckets h = Some ([[32], [], [], [16], [48]] @ replicate 28 []))"
proof -
  let ?ops = "[Push 16 ''a'' 5, Push 32 ''b'' 2, Push 48 ''c'' 8, Pop, Push 32 ''d'' 2]
     :: (64 word, string, 32 word) operation list"
  let ?h = "RadixHeap_init Map.empty :: (string, 32, 64) RadixHeap"
  have r: "respecting ?ops ?h" by code_simp
  have v: "map_option (\<lambda>(tr, h). (m_minimum h, live_buckets h)) (exec ?ops ?h)
      = Some (2, Some ([[32], [], [], [16], [48]] @ replicate 28 []))" by code_simp
  from bucket_index_invariant [OF r] obtain tr h where
    "exec ?ops ?h = Some (tr, h)" "bucket_invariant h" by blast
  then show ?thesis using r v [unfolded \<open>exec ?ops ?h = Some (tr, h)\<close>]
    unfolding fresh_heap_def by auto
qed

text \<open>
  C5. In every reachable state, bit \<open>BITS - i\<close> of the mask is set exactly when bucket \<open>i\<close> is
  non-empty, for \<open>i\<close> in \<open>1..BITS\<close>. When bucket 0 is empty and the heap is not, the index that
  \<open>pop\<close> computes, \<open>BITS + 1 - msbSet (m_bucketMask)\<close>, lies in \<open>1..BITS\<close> and is the index of the
  lowest non-empty bucket; and after that bucket is detached and its bit cleared, the
  mask again records the non-empty buckets.
\<close>

theorem mask_tracks_buckets:
  fixes st :: "('v, 'p::len, 's::len) node_store"
  assumes "respecting ops (RadixHeap_init st)"
  shows "\<exists>tr h. exec ops (RadixHeap_init st) = Some (tr, h) \<and> mask_invariant h
           \<and> (bucket_at h 0 = Some 0 \<and> \<not> empty h \<longrightarrow>
                (\<exists>ind bucket h1.
                   take_bucket (h\<lparr>m_size := m_size h - 1\<rparr>) = Some (ind, bucket, h1)
                   \<and> ind = LENGTH('p) + 1 - msbSet (m_bucketMask h)
                   \<and> 1 \<le> ind \<and> ind \<le> LENGTH('p)
                   \<and> bucket = m_buckets h ! ind \<and> bucket \<noteq> 0
                   \<and> (\<forall>j<ind. m_buckets h ! j = 0)
                   \<and> m_bucketMask h1 = m_bucketMask h XOR push_bit (LENGTH('p) - ind) 1
                   \<and> mask_invariant h1))"
proof -
  let ?L = "LENGTH('p)"
  from reachable_inv [OF assms] obtain tr h bs where h:
    "exec ops (RadixHeap_init st) = Some (tr, h)" "heap_inv h bs" "size_ok h bs" by blast
  have "\<exists>ind bucket h1.
          take_bucket (h\<lparr>m_size := m_size h - 1\<rparr>) = Some (ind, bucket, h1)
          \<and> ind = ?L + 1 - msbSet (m_bucketMask h)
          \<and> 1 \<le> ind \<and> ind \<le> ?L
          \<and> bucket = m_buckets h ! ind \<and> bucket \<noteq> 0
          \<and> (\<forall>j<ind. m_buckets h ! j = 0)
          \<and> m_bucketMask h1 = m_bucketMask h XOR push_bit (?L - ind) 1
          \<and> mask_invariant h1"
    if b0: "bucket_at h 0 = Some 0" and ne: "\<not> empty h"
  proof -
    let ?h = "h\<lparr>m_size := m_size h - 1\<rparr>"
    define ind where "ind = ?L + 1 - msbSet (m_bucketMask ?h)"
    have inv0: "heap_inv ?h bs" using h(2) by simp
    have "m_buckets h ! 0 = 0" using b0 by (simp add: bucket_at_def split: if_splits)
    then have e0: "bs ! 0 = []" using heap_inv_empty_bucket [OF h(2), of 0] by simp
    have nil: "concat bs \<noteq> []" using h(2,3) ne by (rule nonempty_buckets)
    let ?h1 = "?h\<lparr>m_buckets := (m_buckets ?h)[ind := 0],
                    m_bucketMask := m_bucketMask ?h XOR push_bit (?L - ind) 1\<rparr>"
    from take_bucket_inv [OF inv0 e0 nil ind_def]
    have t: "1 \<le> ind" "ind \<le> ?L" "bs ! ind \<noteq> []" "\<forall>j<ind. bs ! j = []"
      "take_bucket ?h = Some (ind, m_buckets ?h ! ind, ?h1)" "heap_inv ?h1 (bs[ind := []])"
      by simp_all
    have "m_buckets h ! ind \<noteq> 0" using heap_inv_empty_bucket [OF h(2) t(2)] t(3) by simp
    moreover have "m_buckets h ! j = 0" if "j < ind" for j
      using heap_inv_empty_bucket [OF h(2), of j] t(2,4) that by simp
    moreover have "mask_invariant ?h1" using t(6) by (rule heap_inv_mask_invariant)
    ultimately show ?thesis using t(1,2,5) ind_def by simp
  qed
  then show ?thesis using h(1) heap_inv_mask_invariant [OF h(2)] by blast
qed

theorem mask_tracks_buckets_witness:
  "respecting [Push 16 ''a'' 5, Push 32 ''b'' 2, Push 48 ''c'' 8] fresh_heap
   \<and> (\<exists>tr h. exec [Push 16 ''a'' 5, Push 32 ''b'' 2, Push 48 ''c'' 8] fresh_heap = Some (tr, h)
        \<and> bucket_at h 0 = Some 0 \<and> \<not> empty h \<and> mask_invariant h
        \<and> (\<exists>bucket h1. take_bucket (h\<lparr>m_size := m_size h - 1\<rparr>) = Some (2, bucket, h1)
              \<and> bucket = m_buckets h ! 2 \<and> bucket \<noteq> 0 \<and> mask_invariant h1))"
proof -
  let ?ops = "[Push 16 ''a'' 5, Push 32 ''b'' 2, Push 48 ''c'' 8]
     :: (64 word, string, 32 word) operation list"
  let ?h = "RadixHeap_init Map.empty :: (string, 32, 64) RadixHeap"
  have r: "respecting ?ops ?h" by code_simp
  have v: "map_option (\<lambda>(tr, h). (bucket_at h 0, empty h, msbSet (m_bucketMask h))) (exec ?ops ?h)
      = Some (Some 0, False, 31)" by code_simp
  from mask_tracks_buckets [OF r] obtain tr h where t:
    "exec ?ops ?h = Some (tr, h)" "mask_invariant h"
    "bucket_at h 0 = Some 0 \<and> \<not> empty h \<longrightarrow>
       (\<exists>ind bucket h1. take_bucket (h\<lparr>m_size := m_size h - 1\<rparr>) = Some (ind, bucket, h1)
          \<and> ind = LENGTH(32) + 1 - msbSet (m_bucketMask h)
          \<and> 1 \<le> ind \<and> ind \<le> LENGTH(32)
          \<and> bucket = m_buckets h ! ind \<and> bucket \<noteq> 0
          \<and> (\<forall>j<ind. m_buckets h ! j = 0)
          \<and> m_bucketMask h1 = m_bucketMask h XOR push_bit (LENGTH(32) - ind) 1
          \<and> mask_invariant h1)" by blast
  from v [unfolded t(1)] have c: "bucket_at h 0 = Some 0" "\<not> empty h" "msbSet (m_bucketMask h) = 31"
    by simp_all
  with t(3) obtain bucket h1 where
    "take_bucket (h\<lparr>m_size := m_size h - 1\<rparr>) = Some (2, bucket, h1)"
    "bucket = m_buckets h ! 2" "bucket \<noteq> 0" "mask_invariant h1" by auto
  then show ?thesis using r t(1,2) c(1,2) unfolding fresh_heap_def by blast
qed




text \<open>
  C7. In every reachable state in which bucket 0 is non-empty, \<open>pop()\<close> returns the value of
  the head node of bucket 0 and unlinks that node: bucket 0 becomes the rest of its list,
  \<open>m_size\<close> is decremented, and the minimum, the mask, and the head pointer, the list and the
  nodes of every other bucket are unchanged.
\<close>

theorem pop_bucket0_frame:
  fixes st :: "('v, 'p::len, 's::len) node_store"
  assumes "respecting ops (RadixHeap_init st)"
  shows "\<exists>tr h. exec ops (RadixHeap_init st) = Some (tr, h)
           \<and> (\<forall>b0. bucket_at h 0 = Some b0 \<and> b0 \<noteq> 0 \<longrightarrow>
                (\<exists>n0 rest h'. deref (store h) b0 = Some n0
                   \<and> pop h = Some (node_value n0, h')
                   \<and> bucket_nodes h 0 = Some (b0 # rest) \<and> bucket_nodes h' 0 = Some rest
                   \<and> size_heap h' = size_heap h - 1
                   \<and> m_minimum h' = m_minimum h \<and> m_bucketMask h' = m_bucketMask h
                   \<and> m_buckets h' = (m_buckets h)[0 := node_next n0]
                   \<and> (\<forall>i. 1 \<le> i \<and> i \<le> LENGTH('p) \<longrightarrow>
                         m_buckets h' ! i = m_buckets h ! i
                         \<and> (\<exists>as. bucket_nodes h i = Some as \<and> bucket_nodes h' i = Some as
                               \<and> (\<forall>a\<in>set as. store h' a = store h a)))))"
proof -
  let ?L = "LENGTH('p)"
  from reachable_inv [OF assms] obtain tr h bs where h:
    "exec ops (RadixHeap_init st) = Some (tr, h)" "heap_inv h bs" "size_ok h bs" by blast
  have "\<exists>n0 rest h'. deref (store h) b0 = Some n0
          \<and> pop h = Some (node_value n0, h')
          \<and> bucket_nodes h 0 = Some (b0 # rest) \<and> bucket_nodes h' 0 = Some rest
          \<and> size_heap h' = size_heap h - 1
          \<and> m_minimum h' = m_minimum h \<and> m_bucketMask h' = m_bucketMask h
          \<and> m_buckets h' = (m_buckets h)[0 := node_next n0]
          \<and> (\<forall>i. 1 \<le> i \<and> i \<le> ?L \<longrightarrow>
                m_buckets h' ! i = m_buckets h ! i
                \<and> (\<exists>as. bucket_nodes h i = Some as \<and> bucket_nodes h' i = Some as
                      \<and> (\<forall>a\<in>set as. store h' a = store h a)))"
    if b0: "bucket_at h 0 = Some b0" "b0 \<noteq> 0" for b0
  proof -
    let ?h = "h\<lparr>m_size := m_size h - 1\<rparr>"
    have inv0: "heap_inv ?h bs" using h(2) by simp
    have len: "length (m_buckets h) = ?L + 1" "length bs = ?L + 1"
      using heap_inv_length [OF h(2)] by simp_all
    have hd0: "m_buckets ?h ! 0 = b0" using b0(1) by (auto simp: bucket_at_def split: if_splits)
    from pop_front_inv [OF inv0 hd0 b0(2)] obtain n0 rest st' where f:
      "bs ! 0 = b0 # rest" "deref (store h) b0 = Some n0"
      "pop_front b0 ?h = Some ((node_value n0, priority n0),
          ?h\<lparr>m_buckets := (m_buckets ?h)[0 := node_next n0], store := st'\<rparr>)"
      "heap_inv (?h\<lparr>m_buckets := (m_buckets ?h)[0 := node_next n0], store := st'\<rparr>) (bs[0 := rest])"
      "\<And>x. x \<noteq> node_next n0 \<Longrightarrow> st' x = store h x"
      by auto
    define h' where "h' = ?h\<lparr>m_buckets := (m_buckets ?h)[0 := node_next n0], store := st'\<rparr>"
    have inv': "heap_inv h' (bs[0 := rest])" using f(4) by (simp add: h'_def)
    have at: "bucket_at ?h 0 = Some b0" using b0(1) by (auto simp: bucket_at_def split: if_splits)
    have pop: "pop h = Some (node_value n0, h')"
      using at b0(2) f(3) by (simp add: pop_def pop_node_def Let_def h'_def)
    have B0: "bucket_nodes h 0 = Some (b0 # rest)"
      using heap_inv_bucket_nodes [OF h(2), of 0] f(1) by simp
    have B0': "bucket_nodes h' 0 = Some rest"
      using heap_inv_bucket_nodes [OF inv', of 0] len by simp
    have nx: "node_next n0 = (if rest = [] then 0 else hd rest)"
      using dll_head [OF heap_inv_dll [OF inv', of 0]] len by (simp add: h'_def)
    have other: "m_buckets h' ! i = m_buckets h ! i
        \<and> (\<exists>as. bucket_nodes h i = Some as \<and> bucket_nodes h' i = Some as
              \<and> (\<forall>a\<in>set as. store h' a = store h a))" if i: "1 \<le> i" "i \<le> ?L" for i
    proof -
      have "bucket_nodes h i = Some (bs ! i)" using h(2) i(2) by (rule heap_inv_bucket_nodes)
      moreover have "bucket_nodes h' i = Some (bs ! i)"
        using heap_inv_bucket_nodes [OF inv' i(2)] i(1) by simp
      moreover have "store h' a = store h a" if a: "a \<in> set (bs ! i)" for a
      proof -
        have "a \<notin> set (bs ! 0)"
          using distinct_concat_disjoint [OF heap_inv_distinct [OF h(2)], of i 0 a] i len a
          by auto
        moreover have "a \<noteq> 0"
          using heap_inv_nonzero [OF h(2)] a i(2) len in_concat_nth [of a bs] by auto
        ultimately have "a \<noteq> node_next n0" using nx f(1) by (cases rest) auto
        then show ?thesis using f(5) by (simp add: h'_def)
      qed
      moreover have "m_buckets h' ! i = m_buckets h ! i" using i(1) by (simp add: h'_def)
      ultimately show ?thesis by blast
    qed
    have "size_heap h' = size_heap h - 1" "m_minimum h' = m_minimum h"
      "m_bucketMask h' = m_bucketMask h" "m_buckets h' = (m_buckets h)[0 := node_next n0]"
      by (simp_all add: h'_def size_heap_def)
    then show ?thesis using f(2) pop B0 B0' other by blast
  qed
  then show ?thesis using h(1) by blast
qed

theorem pop_bucket0_frame_witness:
  "respecting [Push 16 ''a'' 0, Push 32 ''b'' 0, Push 48 ''c'' 5] fresh_heap
   \<and> (\<exists>tr h. exec [Push 16 ''a'' 0, Push 32 ''b'' 0, Push 48 ''c'' 5] fresh_heap = Some (tr, h)
        \<and> bucket_at h 0 = Some 32
        \<and> (\<exists>h'. pop h = Some (''b'', h')
              \<and> bucket_nodes h 0 = Some [32, 16] \<and> bucket_nodes h' 0 = Some [16]
              \<and> size_heap h = 3 \<and> size_heap h' = 2
              \<and> bucket_nodes h 3 = Some [48] \<and> bucket_nodes h' 3 = Some [48]
              \<and> store h' 48 = store h 48))"
proof -
  let ?ops = "[Push 16 ''a'' 0, Push 32 ''b'' 0, Push 48 ''c'' 5]
     :: (64 word, string, 32 word) operation list"
  let ?h = "RadixHeap_init Map.empty :: (string, 32, 64) RadixHeap"
  have r: "respecting ?ops ?h" by code_simp
  have v: "map_option (\<lambda>(tr, h). (bucket_at h 0, map_option node_value (deref (store h) 32),
              bucket_nodes h 0, bucket_nodes h 3, size_heap h)) (exec ?ops ?h)
      = Some (Some 32, Some ''b'', Some [32, 16], Some [48], 3)" by code_simp
  from pop_bucket0_frame [OF r] obtain tr h where t:
    "exec ?ops ?h = Some (tr, h)"
    "\<forall>b0. bucket_at h 0 = Some b0 \<and> b0 \<noteq> 0 \<longrightarrow>
       (\<exists>n0 rest h'. deref (store h) b0 = Some n0
          \<and> pop h = Some (node_value n0, h')
          \<and> bucket_nodes h 0 = Some (b0 # rest) \<and> bucket_nodes h' 0 = Some rest
          \<and> size_heap h' = size_heap h - 1
          \<and> m_minimum h' = m_minimum h \<and> m_bucketMask h' = m_bucketMask h
          \<and> m_buckets h' = (m_buckets h)[0 := node_next n0]
          \<and> (\<forall>i. 1 \<le> i \<and> i \<le> LENGTH(32) \<longrightarrow>
                m_buckets h' ! i = m_buckets h ! i
                \<and> (\<exists>as. bucket_nodes h i = Some as \<and> bucket_nodes h' i = Some as
                      \<and> (\<forall>a\<in>set as. store h' a = store h a))))" by blast
  from v [unfolded t(1)] have c: "bucket_at h 0 = Some 32" "map_option node_value (deref (store h) 32) = Some ''b''"
    "bucket_nodes h 0 = Some [32, 16]" "bucket_nodes h 3 = Some [48]" "size_heap h = 3"
    by simp_all
  from t(2) c(1) obtain n0 rest h' where s:
    "deref (store h) 32 = Some n0" "pop h = Some (node_value n0, h')"
    "bucket_nodes h 0 = Some (32 # rest)" "bucket_nodes h' 0 = Some rest"
    "size_heap h' = size_heap h - 1"
    "\<forall>i. 1 \<le> i \<and> i \<le> LENGTH(32) \<longrightarrow>
        m_buckets h' ! i = m_buckets h ! i
        \<and> (\<exists>as. bucket_nodes h i = Some as \<and> bucket_nodes h' i = Some as
              \<and> (\<forall>a\<in>set as. store h' a = store h a))"
    by force
  from s(6) [rule_format, of 3] c(4) have o: "bucket_nodes h' 3 = Some [48]" "store h' 48 = store h 48"
    by auto
  have "pop h = Some (''b'', h')" using s(1,2) c(2) by simp
  moreover have "bucket_nodes h' 0 = Some [16]" using s(3,4) c(3) by simp
  moreover have "size_heap h' = 2" using s(5) c(5) by simp
  ultimately show ?thesis using r t(1) c o unfolding fresh_heap_def by blast
qed

text \<open>
  C8. For every sequence of calls from a freshly constructed heap that respects the
  preconditions, with \<open>n\<close> pushes and \<open>k\<close> pops: all calls return, \<open>k \<le> n\<close>, \<open>size()\<close> is \<open>n - k\<close>,
  and \<open>empty()\<close> holds exactly when \<open>size()\<close> is 0. A fresh heap has size 0 and minimum 0.
\<close>

theorem size_conservation:
  assumes "respecting ops (RadixHeap_init st)"
  shows "\<exists>tr h. exec ops (RadixHeap_init st) = Some (tr, h)
           \<and> length tr = n_pop ops \<and> n_pop ops \<le> n_push ops
           \<and> unat (size_heap h) = n_push ops - n_pop ops
           \<and> empty h = (size_heap h = 0)
           \<and> size_heap (RadixHeap_init st) = 0 \<and> m_minimum (RadixHeap_init st) = 0"
proof -
  from exec_ok [OF init_ok assms] obtain tr h where a:
    "exec ops (RadixHeap_init st) = Some (tr, h)"
    "heap_ok h ({#} + mset (pushed ops) - mset tr)"
    "mset tr \<subseteq># {#} + mset (pushed ops)" "length tr = n_pop ops" by blast
  have "size (mset tr) \<le> size (mset (pushed ops))"
    using a(3) by (intro size_mset_mono) simp
  then have le: "n_pop ops \<le> n_push ops" using a(4) by (simp add: size_pushed)
  have "unat (m_size h) = size (mset (pushed ops) - mset tr)"
    using heap_ok_size [OF a(2)] by simp
  also have "\<dots> = size (mset (pushed ops)) - size (mset tr)"
    using a(3) by (intro size_Diff_submset) simp
  finally have "unat (size_heap h) = n_push ops - n_pop ops"
    using a(4) by (simp add: size_pushed size_heap_def)
  then show ?thesis using a(1,4) le
    by (simp add: empty_def size_heap_def RadixHeap_init_def)
qed

theorem size_conservation_witness:
  "respecting [Push 16 ''a'' 5, Push 32 ''b'' 2, Pop, Push 32 ''c'' 8] fresh_heap
   \<and> (\<exists>tr h. exec [Push 16 ''a'' 5, Push 32 ''b'' 2, Pop, Push 32 ''c'' 8] fresh_heap = Some (tr, h)
        \<and> length tr = 1 \<and> unat (size_heap h) = 2 \<and> \<not> empty h)"
proof -
  let ?ops = "[Push 16 ''a'' 5, Push 32 ''b'' 2, Pop, Push 32 ''c'' 8]
     :: (64 word, string, 32 word) operation list"
  have r: "respecting ?ops (RadixHeap_init Map.empty :: (string, 32, 64) RadixHeap)"
    by code_simp
  from size_conservation [OF r] obtain tr h where
    "exec ?ops (RadixHeap_init Map.empty :: (string, 32, 64) RadixHeap) = Some (tr, h)"
    "length tr = n_pop ?ops" "unat (size_heap h) = n_push ?ops - n_pop ?ops"
    "empty h = (size_heap h = 0)" by blast
  then have "exec ?ops fresh_heap = Some (tr, h) \<and> length tr = 1 \<and> unat (size_heap h) = 2
      \<and> \<not> empty h"
    unfolding fresh_heap_def by (auto simp: unat_eq_0)
  then show ?thesis using r unfolding fresh_heap_def by blast
qed

text \<open>
  C9. On a freshly constructed heap, for every priority type of at least four bits and
  whatever fresh addresses \<open>new\<close> returns, the calls push("a",5); push("b",2); push("c",8);
  pop(); push("d",6); pop(); pop(); pop() respect the preconditions and all return; the four
  pops return "b", "a", "d", "c" in this order; the minimum is 2, 5 and 6 after the first,
  second and third pop; and \<open>empty()\<close> holds at the end.
\<close>

theorem concrete_scenario:
  fixes st :: "(string, 'p::len, 's::len) node_store"
  assumes "4 \<le> LENGTH('p)"
    and "allocations_fresh (scenario a b c d) (RadixHeap_init st)"
  shows "respecting (scenario a b c d) (RadixHeap_init st)
     \<and> (\<exists>tr h. exec (scenario a b c d) (RadixHeap_init st) = Some (tr, h)
           \<and> map fst tr = [''b'', ''a'', ''d'', ''c''] \<and> map snd tr = [2, 5, 6, 8] \<and> empty h)
     \<and> (\<exists>tr h. exec (take 4 (scenario a b c d)) (RadixHeap_init st) = Some (tr, h)
           \<and> map fst tr = [''b''] \<and> m_minimum h = 2)
     \<and> (\<exists>tr h. exec (take 6 (scenario a b c d)) (RadixHeap_init st) = Some (tr, h)
           \<and> map fst tr = [''b'', ''a''] \<and> m_minimum h = 5)
     \<and> (\<exists>tr h. exec (take 7 (scenario a b c d)) (RadixHeap_init st) = Some (tr, h)
           \<and> map fst tr = [''b'', ''a'', ''d''] \<and> m_minimum h = 6)"
proof -
  from scenario_run [OF assms] obtain h1 h2 h3 h4 h5 h6 h7 h8 where s:
    "step (Push a ''a'' 5) (RadixHeap_init st) = Some ([], h1)"
    "precondition (Push a ''a'' 5) (RadixHeap_init st)"
    "step (Push b ''b'' 2) h1 = Some ([], h2)" "precondition (Push b ''b'' 2) h1"
    "step (Push c ''c'' 8) h2 = Some ([], h3)" "precondition (Push c ''c'' 8) h2"
    "step Pop h3 = Some ([(''b'', 2)], h4)" "precondition Pop h3" "m_minimum h4 = 2"
    "step (Push d ''d'' 6) h4 = Some ([], h5)" "precondition (Push d ''d'' 6) h4"
    "step Pop h5 = Some ([(''a'', 5)], h6)" "precondition Pop h5" "m_minimum h6 = 5"
    "step Pop h6 = Some ([(''d'', 6)], h7)" "precondition Pop h6" "m_minimum h7 = 6"
    "step Pop h7 = Some ([(''c'', 8)], h8)" "precondition Pop h7" "empty h8"
    by blast
  have "respecting (scenario a b c d) (RadixHeap_init st)"
    unfolding scenario_def using s by (simp del: step.simps precondition.simps)
  moreover have "exec (scenario a b c d) (RadixHeap_init st)
      = Some ([(''b'', 2), (''a'', 5), (''d'', 6), (''c'', 8)], h8)"
    unfolding scenario_def using s by (simp del: step.simps precondition.simps)
  moreover have "exec (take 4 (scenario a b c d)) (RadixHeap_init st) = Some ([(''b'', 2)], h4)"
    unfolding scenario_def using s by (simp del: step.simps precondition.simps)
  moreover have "exec (take 6 (scenario a b c d)) (RadixHeap_init st)
      = Some ([(''b'', 2), (''a'', 5)], h6)"
    unfolding scenario_def using s by (simp del: step.simps precondition.simps)
  moreover have "exec (take 7 (scenario a b c d)) (RadixHeap_init st)
      = Some ([(''b'', 2), (''a'', 5), (''d'', 6)], h7)"
    unfolding scenario_def using s by (simp del: step.simps precondition.simps)
  ultimately show ?thesis using s(9,14,17,20) by simp
qed

theorem concrete_scenario_witness:
  "4 \<le> LENGTH(32) \<and> allocations_fresh (scenario 16 32 48 32) fresh_heap
   \<and> respecting (scenario 16 32 48 32) fresh_heap
   \<and> map_option (\<lambda>(tr, h). (map fst tr, empty h)) (exec (scenario 16 32 48 32) fresh_heap)
       = Some ([''b'', ''a'', ''d'', ''c''], True)
   \<and> map_option (\<lambda>(tr, h). (map fst tr, m_minimum h)) (exec (take 4 (scenario 16 32 48 32)) fresh_heap)
       = Some ([''b''], 2)
   \<and> map_option (\<lambda>(tr, h). (map fst tr, m_minimum h)) (exec (take 6 (scenario 16 32 48 32)) fresh_heap)
       = Some ([''b'', ''a''], 5)
   \<and> map_option (\<lambda>(tr, h). (map fst tr, m_minimum h)) (exec (take 7 (scenario 16 32 48 32)) fresh_heap)
       = Some ([''b'', ''a'', ''d''], 6)"
proof -
  have l: "4 \<le> LENGTH(32)" by simp
  have f: "allocations_fresh (scenario 16 32 48 32)
      (RadixHeap_init Map.empty :: (string, 32, 64) RadixHeap)" by code_simp
  from concrete_scenario [OF l f] l f show ?thesis
    unfolding fresh_heap_def by auto
qed

text \<open>
  C10. In every reachable state, a \<open>push(v, p)\<close> with \<open>p\<close> equal to the current minimum returns,
  and the \<open>pop()\<close> that follows it returns exactly \<open>v\<close>. More generally, pushes of any values at
  the minimum followed by as many pops respect the preconditions and return the values
  in reverse order of insertion.
\<close>

theorem equal_minimum_lifo:
  fixes st :: "('v, 'p::len, 's::len) node_store"
  assumes "respecting ops (RadixHeap_init st)"
  shows "\<exists>tr h. exec ops (RadixHeap_init st) = Some (tr, h)
           \<and> (\<forall>a v. a \<noteq> 0 \<and> store h a = None \<longrightarrow>
                (\<exists>h1 h2. push a v (m_minimum h) h = Some (a, h1) \<and> pop h1 = Some (v, h2)))
           \<and> (\<forall>avs. distinct (map fst avs)
                  \<and> list_all (\<lambda>a. a \<noteq> 0 \<and> store h a = None) (map fst avs) \<longrightarrow>
                respecting (pushes_at (m_minimum h) avs @ replicate (length avs) Pop) h
                \<and> (\<exists>h'. exec (pushes_at (m_minimum h) avs @ replicate (length avs) Pop) h
                      = Some (rev (map (\<lambda>(a, v). (v, m_minimum h)) avs), h')))"
proof -
  from reachable_inv [OF assms] obtain tr h bs where h:
    "exec ops (RadixHeap_init st) = Some (tr, h)" "heap_inv h bs" "size_ok h bs" by blast
  have many: "respecting (pushes_at (m_minimum h) avs @ replicate (length avs) Pop) h
      \<and> (\<exists>h'. exec (pushes_at (m_minimum h) avs @ replicate (length avs) Pop) h
            = Some (rev (map (\<lambda>(a, v). (v, m_minimum h)) avs), h'))"
    if "distinct (map fst avs)" "list_all (\<lambda>a. a \<noteq> 0 \<and> store h a = None) (map fst avs)"
    for avs :: "('s word \<times> 'v) list"
  proof -
    have "\<forall>a\<in>set (map fst avs). a \<noteq> 0 \<and> store h a = None"
      using that(2) by (simp add: list_all_iff)
    from lifo_run [OF h(2,3) that(1) this] show ?thesis by blast
  qed
  have one: "\<exists>h1 h2. push a v (m_minimum h) h = Some (a, h1) \<and> pop h1 = Some (v, h2)"
    if "a \<noteq> 0" "store h a = None" for a v
  proof -
    from many [of "[(a, v)]"] that obtain h' where
      "exec [Push a v (m_minimum h), Pop] h = Some ([(v, m_minimum h)], h')"
      by (auto simp: pushes_at_def)
    then obtain x h1 e h2 where s: "push a v (m_minimum h) h = Some (x, h1)"
      "pop_node h1 = Some (e, h2)" "e = (v, m_minimum h)"
      by (auto split: Option.bind_splits)
    have "x = a" using s(1) by (auto simp: push_def Let_def split: if_splits Option.bind_splits)
    moreover have "pop h1 = Some (v, h2)" using s(2,3) by (simp add: pop_def)
    ultimately show ?thesis using s(1) by blast
  qed
  show ?thesis using h(1) one many by blast
qed

theorem equal_minimum_lifo_witness:
  "respecting [Push 16 ''a'' 5, Push 32 ''b'' 2, Push 48 ''c'' 8, Pop] fresh_heap
   \<and> (\<exists>tr h. exec [Push 16 ''a'' 5, Push 32 ''b'' 2, Push 48 ''c'' 8, Pop] fresh_heap = Some (tr, h)
        \<and> m_minimum h = 2 \<and> store h 64 = None \<and> store h 80 = None
        \<and> (\<exists>h1 h2. push 64 ''x'' 2 h = Some (64, h1) \<and> pop h1 = Some (''x'', h2))
        \<and> respecting [Push 64 ''x'' 2, Push 80 ''y'' 2, Pop, Pop] h
        \<and> (\<exists>h'. exec [Push 64 ''x'' 2, Push 80 ''y'' 2, Pop, Pop] h
               = Some ([(''y'', 2), (''x'', 2)], h')))"
proof -
  let ?ops = "[Push 16 ''a'' 5, Push 32 ''b'' 2, Push 48 ''c'' 8, Pop]
     :: (64 word, string, 32 word) operation list"
  let ?h = "RadixHeap_init Map.empty :: (string, 32, 64) RadixHeap"
  have r: "respecting ?ops ?h" by code_simp
  have v: "map_option (\<lambda>(tr, h). (m_minimum h, store h 64 = None, store h 80 = None)) (exec ?ops ?h)
      = Some (2, True, True)" by code_simp
  from equal_minimum_lifo [OF r] obtain tr h where t:
    "exec ?ops ?h = Some (tr, h)"
    "\<forall>a v. a \<noteq> 0 \<and> store h a = None \<longrightarrow>
       (\<exists>h1 h2. push a v (m_minimum h) h = Some (a, h1) \<and> pop h1 = Some (v, h2))"
    "\<forall>avs. distinct (map fst avs)
         \<and> list_all (\<lambda>a. a \<noteq> 0 \<and> store h a = None) (map fst avs) \<longrightarrow>
       respecting (pushes_at (m_minimum h) avs @ replicate (length avs) Pop) h
       \<and> (\<exists>h'. exec (pushes_at (m_minimum h) avs @ replicate (length avs) Pop) h
             = Some (rev (map (\<lambda>(a, v). (v, m_minimum h)) avs), h'))" by blast
  from v [unfolded t(1)] have c: "m_minimum h = 2" "store h 64 = None" "store h 80 = None"
    by simp_all
  from t(2) [rule_format, of 64 "''x''"] c have one:
    "\<exists>h1 h2. push 64 ''x'' 2 h = Some (64, h1) \<and> pop h1 = Some (''x'', h2)" by simp
  from t(3) [rule_format, of "[(64, ''x''), (80, ''y'')]"] c have many:
    "respecting [Push 64 ''x'' 2, Push 80 ''y'' 2, Pop, Pop] h"
    "\<exists>h'. exec [Push 64 ''x'' 2, Push 80 ''y'' 2, Pop, Pop] h = Some ([(''y'', 2), (''x'', 2)], h')"
    by (simp_all add: pushes_at_def)
  show ?thesis using r t(1) c one many unfolding fresh_heap_def by blast
qed

end
